theory Spec2Isabelle
  imports Main
begin

section \<open>JavaScript strings\<close>

text \<open>
  A JavaScript string is a sequence of UTF-16 code units. A code unit is modelled as a
  natural number (real strings only hold values below 65536); \<open>js\<close> turns an ASCII
  literal into its code units. \<open>length\<close> therefore counts what \<open>String.length\<close> counts.
\<close>

type_synonym jsstring = "nat list"

definition js :: "string \<Rightarrow> jsstring" where
  "js s = map of_char s"

section \<open>Regular expressions of \<open>audio-parser.js\<close>\<close>

text \<open>
  The patterns of the source use literal characters, the classes \<open>[\w-]\<close> and
  \<open>[^\s]\<close> under \<open>+\<close>, optional groups \<open>(?:...)?\<close>, alternatives and capture groups.
\<close>

datatype cclass = WordDash | NotSpace

definition is_word :: "nat \<Rightarrow> bool" where
  "is_word c = ((48 \<le> c \<and> c \<le> 57) \<or> (65 \<le> c \<and> c \<le> 90) \<or> c = 95 \<or> (97 \<le> c \<and> c \<le> 122))"

text \<open>\<open>\s\<close>: the WhiteSpace and LineTerminator code units of ECMAScript.\<close>

definition is_space :: "nat \<Rightarrow> bool" where
  "is_space c = (c = 9 \<or> c = 10 \<or> c = 11 \<or> c = 12 \<or> c = 13 \<or> c = 32 \<or> c = 160 \<or> c = 5760
     \<or> (8192 \<le> c \<and> c \<le> 8202) \<or> c = 8232 \<or> c = 8233 \<or> c = 8239 \<or> c = 8287
     \<or> c = 12288 \<or> c = 65279)"

text \<open>
  Without the \<open>u\<close> flag, the \<open>i\<close> flag adds no code unit to \<open>[\w-]\<close> and removes none
  from \<open>[^\s]\<close>, so the classes do not depend on the flag.
\<close>

fun in_class :: "cclass \<Rightarrow> nat \<Rightarrow> bool" where
  "in_class WordDash c = (is_word c \<or> c = 45)"
| "in_class NotSpace c = (\<not> is_space c)"

datatype rx =
    Lit jsstring
  | Plus cclass
  | Opt rx
  | Alt rx rx
  | Seq rx rx
  | Cap rx

fun cat :: "rx list \<Rightarrow> rx" where
  "cat [] = Lit []"
| "cat [r] = r"
| "cat (r # rs) = Seq r (cat rs)"

text \<open>
  Canonicalize of ECMAScript for a pattern without the \<open>u\<close> flag. An ASCII letter is
  upper-cased under \<open>i\<close>. A code unit from 128 on never canonicalizes to one below 128;
  the patterns of the source hold ASCII only, so leaving such a unit as it is decides
  every comparison with a pattern character the way the engine does.
\<close>

definition canonicalize :: "bool \<Rightarrow> nat \<Rightarrow> nat" where
  "canonicalize ic c = (if ic \<and> 97 \<le> c \<and> c \<le> 122 then c - 32 else c)"

fun lit_match :: "bool \<Rightarrow> jsstring \<Rightarrow> jsstring \<Rightarrow> jsstring option" where
  "lit_match ic [] s = Some s"
| "lit_match ic (p # ps) [] = None"
| "lit_match ic (p # ps) (c # cs) =
     (if canonicalize ic c = canonicalize ic p then lit_match ic ps cs else None)"

text \<open>
  The greedy repetition of a class: the input positions after zero or more class
  characters, the longest run first (the order in which the engine backtracks).
\<close>

fun star_ends :: "cclass \<Rightarrow> jsstring \<Rightarrow> jsstring list" where
  "star_ends k [] = [[]]"
| "star_ends k (c # cs) = (if in_class k c then star_ends k cs @ [c # cs] else [c # cs])"

text \<open>
  The backtracking matcher. A state is the captures so far and the input that is left;
  the result lists every way the pattern can match at the start of the input, in the
  engine's order of preference, so its head is the match the engine reports.
  An optional group that consumed nothing is rejected, as RepeatMatcher does.
  Captures are appended when their group closes; in the source's patterns groups are not
  nested and always take part, so this is the order of \<open>match[1]\<close>, \<open>match[2]\<close>.
\<close>

fun matcher :: "bool \<Rightarrow> rx \<Rightarrow> jsstring list \<times> jsstring \<Rightarrow> (jsstring list \<times> jsstring) list" where
  "matcher ic (Lit l) (caps, s) =
     (case lit_match ic l s of None \<Rightarrow> [] | Some s' \<Rightarrow> [(caps, s')])"
| "matcher ic (Plus k) (caps, s) =
     (case s of [] \<Rightarrow> []
      | c # cs \<Rightarrow> if in_class k c then map (Pair caps) (star_ends k cs) else [])"
| "matcher ic (Opt r) (caps, s) =
     filter (\<lambda>st'. length (snd st') \<noteq> length s) (matcher ic r (caps, s)) @ [(caps, s)]"
| "matcher ic (Alt a b) st = matcher ic a st @ matcher ic b st"
| "matcher ic (Seq a b) st = concat (map (matcher ic b) (matcher ic a st))"
| "matcher ic (Cap r) (caps, s) =
     map (\<lambda>st'. (fst st' @ [take (length s - length (snd st')) s], snd st'))
       (matcher ic r (caps, s))"

definition match_here :: "bool \<Rightarrow> rx \<Rightarrow> jsstring \<Rightarrow> (jsstring list \<times> jsstring) option" where
  "match_here ic r s = (case matcher ic r ([], s) of [] \<Rightarrow> None | st # _ \<Rightarrow> Some st)"

record regexp =
  source :: rx
  global :: bool
  ignoreCase :: bool

record match_result =
  index :: nat
  matched :: jsstring
  groups :: "jsstring list"

text \<open>
  The loop of RegExpBuiltinExec: try the pattern at \<open>i\<close>, \<open>i + 1\<close>, ... and fail once the
  index passes the end of the string. A success is the start index, the end index and
  the captures.
\<close>

function search :: "regexp \<Rightarrow> jsstring \<Rightarrow> nat \<Rightarrow> (nat \<times> nat \<times> jsstring list) option" where
  "search R S i =
     (if i > length S then None
      else case match_here (ignoreCase R) (source R) (drop i S) of
             Some (caps, rest) \<Rightarrow> Some (i, length S - length rest, caps)
           | None \<Rightarrow> search R S (Suc i))"
  by pat_completeness auto
termination
  by (relation "measure (\<lambda>(R, S, i). Suc (length S) - i)") auto

declare search.simps [simp del]

text \<open>
  RegExpBuiltinExec on a pattern object whose \<open>lastIndex\<close> is \<open>li\<close>: the result and the
  new \<open>lastIndex\<close>. Only a global pattern reads and writes \<open>lastIndex\<close>.
\<close>

definition RegExpBuiltinExec :: "regexp \<Rightarrow> nat \<Rightarrow> jsstring \<Rightarrow> match_result option \<times> nat" where
  "RegExpBuiltinExec R li S =
     (case search R S (if global R then li else 0) of
        None \<Rightarrow> (None, if global R then 0 else li)
      | Some (i, e, caps) \<Rightarrow>
          (Some \<lparr>index = i, matched = take (e - i) (drop i S), groups = caps\<rparr>,
           if global R then e else li))"


subsection \<open>What the matcher leaves is a suffix of its input\<close>

lemma lit_match_suffix:
  "lit_match ic l s = Some s' \<Longrightarrow> \<exists>u. s = u @ s' \<and> length u = length l"
proof (induction ic l s rule: lit_match.induct)
  case (3 ic p ps c cs)
  then obtain u where "cs = u @ s'" "length u = length ps"
    by (auto split: if_splits)
  then have "c # cs = (c # u) @ s' \<and> length (c # u) = length (p # ps)" by simp
  then show ?case by blast
qed auto

lemma star_ends_suffix: "x \<in> set (star_ends k s) \<Longrightarrow> \<exists>u. s = u @ x"
proof (induction s)
  case (Cons c cs)
  show ?case
  proof (cases "x = c # cs")
    case True
    then show ?thesis by simp
  next
    case False
    with Cons.prems have "x \<in> set (star_ends k cs)" by (auto split: if_splits)
    with Cons.IH obtain u where "cs = u @ x" by blast
    then have "c # cs = (c # u) @ x" by simp
    then show ?thesis by blast
  qed
qed simp

lemma matcher_suffix:
  "(caps', s') \<in> set (matcher ic r (caps, s)) \<Longrightarrow> \<exists>u. s = u @ s'"
proof (induction r arbitrary: caps s caps' s')
  case (Lit l)
  then have "lit_match ic l s = Some s'" by (auto split: option.splits)
  from lit_match_suffix [OF this] show ?case by blast
next
  case (Plus k)
  then obtain c cs where s: "s = c # cs" and "s' \<in> set (star_ends k cs)"
    by (auto split: list.splits if_splits)
  with star_ends_suffix obtain u where "cs = u @ s'" by blast
  with s have "s = (c # u) @ s'" by simp
  then show ?case by blast
next
  case (Opt r)
  then show ?case by auto
next
  case (Alt a b)
  then show ?case by auto
next
  case (Seq a b)
  from Seq.prems obtain c1 s1 where
    a: "(c1, s1) \<in> set (matcher ic a (caps, s))" and
    b: "(caps', s') \<in> set (matcher ic b (c1, s1))"
    by auto
  from Seq.IH(1) [OF a] obtain u where "s = u @ s1" by blast
  moreover from Seq.IH(2) [OF b] obtain v where "s1 = v @ s'" by blast
  ultimately have "s = (u @ v) @ s'" by simp
  then show ?case by blast
next
  case (Cap r)
  then show ?case by auto
qed

lemma match_here_suffix:
  "match_here ic r s = Some (caps, rest) \<Longrightarrow> \<exists>u. s = u @ rest"
proof -
  assume "match_here ic r s = Some (caps, rest)"
  then have "(caps, rest) \<in> set (matcher ic r ([], s))"
    by (auto simp: match_here_def split: list.splits)
  then show ?thesis by (rule matcher_suffix)
qed

lemma search_bounds:
  "search R S li = Some (i, e, caps) \<Longrightarrow> li \<le> i \<and> i \<le> e \<and> e \<le> length S"
proof (induction R S li rule: search.induct)
  case (1 R S j)
  show ?case
  proof (cases "match_here (ignoreCase R) (source R) (drop j S)")
    case None
    with "1.prems" have "j \<le> length S" and "search R S (Suc j) = Some (i, e, caps)"
      by (auto simp: search.simps [of R S j] split: if_splits)
    with "1.IH"(1) None show ?thesis by fastforce
  next
    case (Some st)
    obtain c rest where st: "st = (c, rest)" by (cases st)
    from "1.prems" Some st have j: "j \<le> length S" "i = j" "e = length S - length rest"
      by (auto simp: search.simps [of R S j] split: if_splits)
    from match_here_suffix Some st obtain u where "drop j S = u @ rest" by blast
    then have "length rest \<le> length S - j"
      by (metis length_append length_drop le_add2)
    with j show ?thesis by simp
  qed
qed

lemma exec_progress:
  assumes "global R" and "RegExpBuiltinExec R li S = (Some m, li')"
  shows "li \<le> length S \<and> li \<le> li' \<and> (matched m \<noteq> [] \<longrightarrow> li < li')"
proof -
  from assms obtain i e caps where s: "search R S li = Some (i, e, caps)"
    and m: "m = \<lparr>index = i, matched = take (e - i) (drop i S), groups = caps\<rparr>"
    and li': "li' = e"
    by (auto simp: RegExpBuiltinExec_def split: option.splits)
  from search_bounds [OF s] have b: "li \<le> i" "i \<le> e" "e \<le> length S" by auto
  from m have "matched m \<noteq> [] \<longrightarrow> i < e" by (cases "i < e") auto
  with b li' show ?thesis by auto
qed

text \<open>
  \<open>String.prototype.matchAll\<close> works on a copy of the pattern object whose \<open>lastIndex\<close>
  starts at \<open>li\<close>; the original is never written. The iterator runs RegExpBuiltinExec
  until it fails and steps over an empty match. Every pattern of the table has the
  \<open>g\<close> flag (without it \<open>String.prototype.matchAll\<close> throws a TypeError); the branch for
  a pattern without the flag is the iterator's, which yields one match and stops.
\<close>

function matchAll_iter :: "regexp \<Rightarrow> jsstring \<Rightarrow> nat \<Rightarrow> match_result list" where
  "matchAll_iter R S li =
     (case RegExpBuiltinExec R li S of
        (None, _) \<Rightarrow> []
      | (Some m, li') \<Rightarrow>
          if \<not> global R then [m]
          else m # matchAll_iter R S (if matched m = [] then Suc li' else li'))"
  by pat_completeness auto
termination
proof (relation "measure (\<lambda>(R, S, li). Suc (length S) - li)", goal_cases)
  case 1
  show ?case by simp
next
  case (2 R S li x y m)
  then have "RegExpBuiltinExec R li S = (Some m, y)" and "global R" by simp_all
  from exec_progress [OF this(2) this(1)] show ?case by auto
qed

declare matchAll_iter.simps [simp del]

section \<open>The platform table of \<open>AudioParser\<close>\<close>

datatype error = URIError

datatype platform = soundcloud | youtube | spotify | bandcamp | directAudio

text \<open>
  \<open>this.platforms\<close> (\<open>audio-parser.js\<close>, lines 8 to 29). \<open>Object.entries\<close> and
  \<open>Object.values\<close> enumerate the table in insertion order.
\<close>

definition platform_order :: "platform list" where
  "platform_order = [soundcloud, youtube, spotify, bandcamp, directAudio]"

text \<open>
  The patterns of the table:
  \<^item> soundcloud: \<^verbatim>\<open>/(?:https?:\/\/)?(?:www\.)?soundcloud\.com\/[\w-]+\/[\w-]+/gi\<close>
  \<^item> youtube: \<^verbatim>\<open>/(?:https?:\/\/)?(?:www\.)?(?:youtube\.com\/watch\?v=|youtu\.be\/)([\w-]+)/gi\<close>
  \<^item> spotify: \<^verbatim>\<open>/(?:https?:\/\/)?(?:open\.)?spotify\.com\/(track|album|playlist)\/([\w-]+)/gi\<close>
  \<^item> bandcamp: \<^verbatim>\<open>/(?:https?:\/\/)?[\w-]+\.bandcamp\.com\/(?:track|album)\/([\w-]+)/gi\<close>
  \<^item> directAudio: \<^verbatim>\<open>/https?:\/\/[^\s]+\.(?:mp3|wav|ogg|m4a|flac)/gi\<close>
\<close>

fun pattern_source :: "platform \<Rightarrow> rx" where
  "pattern_source soundcloud =
     cat [Opt (cat [Lit (js ''http''), Opt (Lit (js ''s'')), Lit (js ''://'')]),
          Opt (Lit (js ''www.'')),
          Lit (js ''soundcloud.com/''), Plus WordDash, Lit (js ''/''), Plus WordDash]"
| "pattern_source youtube =
     cat [Opt (cat [Lit (js ''http''), Opt (Lit (js ''s'')), Lit (js ''://'')]),
          Opt (Lit (js ''www.'')),
          Alt (Lit (js ''youtube.com/watch?v='')) (Lit (js ''youtu.be/'')),
          Cap (Plus WordDash)]"
| "pattern_source spotify =
     cat [Opt (cat [Lit (js ''http''), Opt (Lit (js ''s'')), Lit (js ''://'')]),
          Opt (Lit (js ''open.'')),
          Lit (js ''spotify.com/''),
          Cap (Alt (Lit (js ''track'')) (Alt (Lit (js ''album'')) (Lit (js ''playlist'')))),
          Lit (js ''/''), Cap (Plus WordDash)]"
| "pattern_source bandcamp =
     cat [Opt (cat [Lit (js ''http''), Opt (Lit (js ''s'')), Lit (js ''://'')]),
          Plus WordDash,
          Lit (js ''.bandcamp.com/''),
          Alt (Lit (js ''track'')) (Lit (js ''album'')),
          Lit (js ''/''), Cap (Plus WordDash)]"
| "pattern_source directAudio =
     cat [Lit (js ''http''), Opt (Lit (js ''s'')), Lit (js ''://''),
          Plus NotSpace,
          Lit (js ''.''),
          Alt (Lit (js ''mp3'')) (Alt (Lit (js ''wav'')) (Alt (Lit (js ''ogg''))
            (Alt (Lit (js ''m4a'')) (Lit (js ''flac'')))))]"

text \<open>Every pattern of the table carries the flags \<open>gi\<close>.\<close>

definition pattern :: "platform \<Rightarrow> regexp" where
  "pattern p = \<lparr>source = pattern_source p, global = True, ignoreCase = True\<rparr>"

section \<open>Embed builders\<close>

subsection \<open>\<open>encodeURIComponent\<close>\<close>

definition uri_unreserved :: "nat \<Rightarrow> bool" where
  "uri_unreserved c = ((48 \<le> c \<and> c \<le> 57) \<or> (65 \<le> c \<and> c \<le> 90) \<or> (97 \<le> c \<and> c \<le> 122)
     \<or> c = 45 \<or> c = 95 \<or> c = 46 \<or> c = 33 \<or> c = 126 \<or> c = 42 \<or> c = 39 \<or> c = 40 \<or> c = 41)"

definition hex_digit :: "nat \<Rightarrow> nat" where
  "hex_digit n = (if n < 10 then 48 + n else 55 + n)"

definition percent_octet :: "nat \<Rightarrow> jsstring" where
  "percent_octet b = [37, hex_digit (b div 16), hex_digit (b mod 16)]"

definition utf8_octets :: "nat \<Rightarrow> nat list" where
  "utf8_octets cp =
     (if cp < 128 then [cp]
      else if cp < 2048 then [192 + cp div 64, 128 + cp mod 64]
      else if cp < 65536 then [224 + cp div 4096, 128 + (cp div 64) mod 64, 128 + cp mod 64]
      else [240 + cp div 262144, 128 + (cp div 4096) mod 64, 128 + (cp div 64) mod 64,
            128 + cp mod 64])"

definition percent_encode :: "nat \<Rightarrow> jsstring" where
  "percent_encode cp = concat (map percent_octet (utf8_octets cp))"

definition lead_surrogate :: "nat \<Rightarrow> bool" where
  "lead_surrogate c = (55296 \<le> c \<and> c \<le> 56319)"

definition trail_surrogate :: "nat \<Rightarrow> bool" where
  "trail_surrogate c = (56320 \<le> c \<and> c \<le> 57343)"

text \<open>
  Encode of ECMAScript: an unreserved code unit is kept, a surrogate pair is one code
  point, and a surrogate without its partner throws URIError.
\<close>

fun encodeURIComponent :: "jsstring \<Rightarrow> error + jsstring" where
  "encodeURIComponent [] = Inr []"
| "encodeURIComponent [c] =
     (if uri_unreserved c then Inr [c]
      else if lead_surrogate c \<or> trail_surrogate c then Inl URIError
      else Inr (percent_encode c))"
| "encodeURIComponent (c # d # ds) =
     (if uri_unreserved c then
        (case encodeURIComponent (d # ds) of Inl e \<Rightarrow> Inl e | Inr r \<Rightarrow> Inr (c # r))
      else if trail_surrogate c then Inl URIError
      else if lead_surrogate c then
        (if trail_surrogate d then
           (case encodeURIComponent ds of
              Inl e \<Rightarrow> Inl e
            | Inr r \<Rightarrow> Inr (percent_encode (65536 + (c - 55296) * 1024 + (d - 56320)) @ r))
         else Inl URIError)
      else
        (case encodeURIComponent (d # ds) of
           Inl e \<Rightarrow> Inl e
         | Inr r \<Rightarrow> Inr (percent_encode c @ r)))"

subsection \<open>The markup templates\<close>

definition soundcloud_markup :: "jsstring \<Rightarrow> jsstring" where
  \<open>soundcloud_markup encodedUrl =
     js ''
      <iframe 
        width="100%" 
        height="166" 
        scrolling="no" 
        frameborder="no" 
        allow="autoplay"
        src="https://w.soundcloud.com/player/?url='' @ encodedUrl @ js ''&color=%238b5cf6&auto_play=false&hide_related=true&show_comments=false&show_user=true&show_reposts=false&show_teaser=false">
      </iframe>
    ''\<close>

definition youtube_markup :: "jsstring \<Rightarrow> jsstring" where
  \<open>youtube_markup videoId =
     js ''
      <iframe 
        width="100%" 
        height="315" 
        src="https://www.youtube.com/embed/'' @ videoId @ js ''" 
        frameborder="0" 
        allow="accelerometer; autoplay; clipboard-write; encrypted-media; gyroscope; picture-in-picture" 
        allowfullscreen>
      </iframe>
    ''\<close>

definition spotify_markup :: "jsstring \<Rightarrow> jsstring \<Rightarrow> jsstring \<Rightarrow> jsstring" where
  \<open>spotify_markup item_type item_id height =
     js ''
      <iframe 
        style="border-radius:12px" 
        src="https://open.spotify.com/embed/'' @ item_type @ js ''/'' @ item_id @ js ''?utm_source=generator" 
        width="100%" 
        height="'' @ height @ js ''" 
        frameBorder="0" 
        allowfullscreen="" 
        allow="autoplay; clipboard-write; encrypted-media; fullscreen; picture-in-picture" 
        loading="lazy">
      </iframe>
    ''\<close>

definition bandcamp_markup :: "jsstring \<Rightarrow> jsstring" where
  \<open>bandcamp_markup url =
     js ''
      <div class="audio-link">
        <a href="'' @ url @ js ''" target="_blank" rel="noopener noreferrer">
          '' @ [240, 376, 381, 181] @ js '' Escuchar en Bandcamp
        </a>
      </div>
    ''\<close>

definition directAudio_markup :: "jsstring \<Rightarrow> jsstring" where
  \<open>directAudio_markup url =
     js ''
      <audio controls style="width: 100%;">
        <source src="'' @ url @ js ''" type="audio/mpeg">
        Tu navegador no soporta el elemento de audio.
      </audio>
    ''\<close>

subsection \<open>The builders\<close>

definition createSoundCloudEmbed :: "jsstring \<Rightarrow> error + jsstring" where
  "createSoundCloudEmbed url =
     (case encodeURIComponent url of
        Inl e \<Rightarrow> Inl e
      | Inr encodedUrl \<Rightarrow> Inr (soundcloud_markup encodedUrl))"

text \<open>
  \<open>url.match(pattern)\<close> with a pattern that has no \<open>g\<close> flag is one RegExpBuiltinExec
  from index 0. \<open>capture m n\<close> is \<open>match[n]\<close> for \<open>n \<ge> 1\<close>; \<open>None\<close> is \<open>undefined\<close>.
\<close>

definition string_match :: "jsstring \<Rightarrow> regexp \<Rightarrow> match_result option" where
  "string_match S R = fst (RegExpBuiltinExec R 0 S)"

definition capture :: "match_result \<Rightarrow> nat \<Rightarrow> jsstring option" where
  "capture m n = (if 0 < n \<and> n \<le> length (groups m) then Some (groups m ! (n - 1)) else None)"

text \<open>
  The three patterns of \<open>createYouTubeEmbed\<close> (lines 83 to 87), none with a flag:
  \<^verbatim>\<open>/(?:youtube\.com\/watch\?v=)([\w-]+)/\<close>, \<^verbatim>\<open>/(?:youtu\.be\/)([\w-]+)/\<close> and
  \<^verbatim>\<open>/(?:youtube\.com\/embed\/)([\w-]+)/\<close>.
\<close>

definition youtube_watch_pattern :: regexp where
  "youtube_watch_pattern =
     \<lparr>source = cat [Lit (js ''youtube.com/watch?v=''), Cap (Plus WordDash)],
      global = False, ignoreCase = False\<rparr>"

definition youtu_be_pattern :: regexp where
  "youtu_be_pattern =
     \<lparr>source = cat [Lit (js ''youtu.be/''), Cap (Plus WordDash)],
      global = False, ignoreCase = False\<rparr>"

definition youtube_embed_pattern :: regexp where
  "youtube_embed_pattern =
     \<lparr>source = cat [Lit (js ''youtube.com/embed/''), Cap (Plus WordDash)],
      global = False, ignoreCase = False\<rparr>"

definition youtube_id_patterns :: "regexp list" where
  "youtube_id_patterns = [youtube_watch_pattern, youtu_be_pattern, youtube_embed_pattern]"

text \<open>The loop over the patterns: \<open>videoId\<close> stays \<open>''\<close> when none matches.\<close>

fun find_videoId :: "regexp list \<Rightarrow> jsstring \<Rightarrow> jsstring option" where
  "find_videoId [] url = Some []"
| "find_videoId (p # ps) url =
     (case string_match url p of
        Some m \<Rightarrow> capture m 1
      | None \<Rightarrow> find_videoId ps url)"

definition createYouTubeEmbed :: "jsstring \<Rightarrow> jsstring" where
  "createYouTubeEmbed url =
     (case find_videoId youtube_id_patterns url of
        None \<Rightarrow> []
      | Some videoId \<Rightarrow> if videoId = [] then [] else youtube_markup videoId)"

text \<open>
  The pattern of \<open>createSpotifyEmbed\<close> (line 117), without a flag:
  \<^verbatim>\<open>/spotify\.com\/(track|album|playlist)\/([\w-]+)/\<close>.
\<close>

definition spotify_item_pattern :: regexp where
  "spotify_item_pattern =
     \<lparr>source = cat [Lit (js ''spotify.com/''),
                     Cap (Alt (Lit (js ''track'')) (Alt (Lit (js ''album'')) (Lit (js ''playlist'')))),
                     Lit (js ''/''), Cap (Plus WordDash)],
      global = False, ignoreCase = False\<rparr>"

text \<open>A template prints \<open>undefined\<close> for a capture that is not there.\<close>

definition template_string :: "jsstring option \<Rightarrow> jsstring" where
  "template_string v = (case v of None \<Rightarrow> js ''undefined'' | Some s \<Rightarrow> s)"

definition spotify_height :: "jsstring option \<Rightarrow> jsstring" where
  "spotify_height item_type = (if item_type = Some (js ''track'') then js ''152'' else js ''380'')"

definition createSpotifyEmbed :: "jsstring \<Rightarrow> jsstring" where
  "createSpotifyEmbed url =
     (case string_match url spotify_item_pattern of
        None \<Rightarrow> []
      | Some m \<Rightarrow>
          spotify_markup (template_string (capture m 1)) (template_string (capture m 2))
            (spotify_height (capture m 1)))"

definition createBandcampEmbed :: "jsstring \<Rightarrow> jsstring" where
  "createBandcampEmbed url = bandcamp_markup url"

definition createDirectAudioEmbed :: "jsstring \<Rightarrow> jsstring" where
  "createDirectAudioEmbed url = directAudio_markup url"

text \<open>The \<open>embed\<close> closure of each table entry; \<open>Inl\<close> is a thrown error.\<close>

fun platform_embed :: "platform \<Rightarrow> jsstring \<Rightarrow> error + jsstring" where
  "platform_embed soundcloud url = createSoundCloudEmbed url"
| "platform_embed youtube url = Inr (createYouTubeEmbed url)"
| "platform_embed spotify url = Inr (createSpotifyEmbed url)"
| "platform_embed bandcamp url = Inr (createBandcampEmbed url)"
| "platform_embed directAudio url = Inr (createDirectAudioEmbed url)"

section \<open>\<open>AudioParser\<close>\<close>

text \<open>
  The table is built once by the constructor and never reassigned. What an instance
  holds that can change is the \<open>lastIndex\<close> of each of its five pattern objects.
\<close>

record AudioParser =
  lastIndex :: "platform \<Rightarrow> nat"

definition new_AudioParser :: AudioParser where
  "new_AudioParser = \<lparr>lastIndex = (\<lambda>p. 0)\<rparr>"

record AudioMatch =
  platform :: platform
  url :: jsstring
  embedHtml :: jsstring

text \<open>
  \<open>parseText\<close> (lines 37 to 53). The inner loop: one push for each match of one platform;
  a builder that throws ends the call.
\<close>

fun push_matches :: "platform \<Rightarrow> match_result list \<Rightarrow> AudioMatch list \<Rightarrow> error + AudioMatch list" where
  "push_matches p [] detectedAudio = Inr detectedAudio"
| "push_matches p (m # ms) detectedAudio =
     (case platform_embed p (matched m) of
        Inl e \<Rightarrow> Inl e
      | Inr html \<Rightarrow>
          push_matches p ms
            (detectedAudio @ [\<lparr>platform = p, url = matched m, embedHtml = html\<rparr>]))"

text \<open>The outer loop: the platforms in table order, \<open>matchAll\<close> on each pattern.\<close>

fun parse_platforms :: "platform list \<Rightarrow> AudioParser \<Rightarrow> jsstring \<Rightarrow> AudioMatch list \<Rightarrow> error + AudioMatch list" where
  "parse_platforms [] P text detectedAudio = Inr detectedAudio"
| "parse_platforms (p # ps) P text detectedAudio =
     (case push_matches p (matchAll_iter (pattern p) text (lastIndex P p)) detectedAudio of
        Inl e \<Rightarrow> Inl e
      | Inr detectedAudio' \<Rightarrow> parse_platforms ps P text detectedAudio')"

text \<open>\<open>parseText\<close> writes no field of the instance, so it returns its result only.\<close>

definition parseText :: "AudioParser \<Rightarrow> jsstring \<Rightarrow> error + AudioMatch list" where
  "parseText P text = parse_platforms platform_order P text []"

text \<open>
  \<open>hasAudioUrls\<close> (lines 173 to 180) calls \<open>test\<close> on the pattern objects themselves: each call is a
  RegExpBuiltinExec that reads and writes that pattern's \<open>lastIndex\<close>. The result is the
  boolean and the instance after the call.
\<close>

fun test_platforms :: "platform list \<Rightarrow> AudioParser \<Rightarrow> jsstring \<Rightarrow> bool \<times> AudioParser" where
  "test_platforms [] P text = (False, P)"
| "test_platforms (p # ps) P text =
     (case RegExpBuiltinExec (pattern p) (lastIndex P p) text of
        (r, li') \<Rightarrow>
          let P' = P\<lparr>lastIndex := (lastIndex P)(p := li')\<rparr>
          in if r \<noteq> None then (True, P') else test_platforms ps P' text)"

definition hasAudioUrls :: "AudioParser \<Rightarrow> jsstring \<Rightarrow> bool \<times> AudioParser" where
  "hasAudioUrls P text = test_platforms platform_order P text"

text \<open>\<open>getFirstAudio\<close> (lines 187 to 190); \<open>None\<close> is \<open>null\<close>.\<close>

definition getFirstAudio :: "AudioParser \<Rightarrow> jsstring \<Rightarrow> error + AudioMatch option" where
  "getFirstAudio P text =
     (case parseText P text of
        Inl e \<Rightarrow> Inl e
      | Inr allAudio \<Rightarrow> Inr (case allAudio of [] \<Rightarrow> None | a # _ \<Rightarrow> Some a))"

section \<open>\<open>MusicHub.formatPostText\<close>\<close>

text \<open>
  \<open>String.prototype.replace\<close> with a string pattern replaces the first occurrence only.
\<close>

fun index_of :: "jsstring \<Rightarrow> jsstring \<Rightarrow> nat option" where
  "index_of [] pat = (if pat = [] then Some 0 else None)"
| "index_of (c # cs) pat =
     (if take (length pat) (c # cs) = pat then Some 0
      else map_option Suc (index_of cs pat))"

definition replace_first :: "jsstring \<Rightarrow> jsstring \<Rightarrow> jsstring \<Rightarrow> jsstring" where
  "replace_first s pat rep =
     (case index_of s pat of
        None \<Rightarrow> s
      | Some i \<Rightarrow> take i s @ rep @ drop (i + length pat) s)"

text \<open>\<open>replace(/\n/g, '<br>')\<close>\<close>

definition newlines_to_br :: "jsstring \<Rightarrow> jsstring" where
  "newlines_to_br s = concat (map (\<lambda>c. if c = 10 then js ''<br>'' else [c]) s)"

text \<open>
  \<open>formatPostText\<close> (\<open>app.js\<close>, lines 186 to 206) up to its last line: the string it
  hands to \<open>escapeHtml\<close>, with the matched URLs removed, line breaks converted and the
  length limited. \<open>P\<close> is the \<open>audioParser\<close> of the instance; an empty text is the
  falsy one.
\<close>

definition formatPostText_text :: "AudioParser \<Rightarrow> jsstring \<Rightarrow> error + jsstring" where
  "formatPostText_text P text =
     (if text = [] then Inr []
      else case parseText P text of
        Inl e \<Rightarrow> Inl e
      | Inr audioUrls \<Rightarrow>
          let formattedText = foldl (\<lambda>t audio. replace_first t (url audio) []) text audioUrls;
              formattedText = newlines_to_br formattedText;
              maxLength = 300
          in Inr (if length formattedText > maxLength
                  then take maxLength formattedText @ js ''...''
                  else formattedText))"

section \<open>Notions the properties are stated with\<close>

subsection \<open>Occurrences of a pattern in a text\<close>

text \<open>
  The occurrences of a pattern, read from left to right without overlap: where the
  pattern matches, the matched text is one occurrence and the reading goes on behind it
  (one character further after an empty match); elsewhere it goes on one character
  further. This is the reading of "every non-overlapping match" that the results of
  \<open>parseText\<close> are compared with.
\<close>

function occurrences :: "regexp \<Rightarrow> jsstring \<Rightarrow> jsstring list" where
  "occurrences R s =
     (case match_here (ignoreCase R) (source R) s of
        Some (caps, rest) \<Rightarrow>
          let u = take (length s - length rest) s
          in u # (if u = [] then (case s of [] \<Rightarrow> [] | c # cs \<Rightarrow> occurrences R cs)
                  else occurrences R (drop (length u) s))
      | None \<Rightarrow> (case s of [] \<Rightarrow> [] | c # cs \<Rightarrow> occurrences R cs))"
  by pat_completeness auto

termination
  by (relation "measure (\<lambda>(R, s). length s)") auto

declare occurrences.simps [simp del]

text \<open>
  The scan as the specification words it: for each platform in table order, one
  AudioMatch for each occurrence, its markup built by the platform's builder.
\<close>

fun audio_of_urls :: "platform \<Rightarrow> jsstring list \<Rightarrow> error + AudioMatch list" where
  "audio_of_urls p [] = Inr []"
| "audio_of_urls p (u # us) =
     (case platform_embed p u of
        Inl e \<Rightarrow> Inl e
      | Inr html \<Rightarrow>
          (case audio_of_urls p us of
             Inl e \<Rightarrow> Inl e
           | Inr r \<Rightarrow> Inr (\<lparr>platform = p, url = u, embedHtml = html\<rparr> # r)))"

fun scan_platforms :: "platform list \<Rightarrow> (platform \<Rightarrow> jsstring list) \<Rightarrow> error + AudioMatch list" where
  "scan_platforms [] f = Inr []"
| "scan_platforms (p # ps) f =
     (case audio_of_urls p (f p) of
        Inl e \<Rightarrow> Inl e
      | Inr r \<Rightarrow>
          (case scan_platforms ps f of
             Inl e \<Rightarrow> Inl e
           | Inr r' \<Rightarrow> Inr (r @ r')))"

definition scan :: "jsstring \<Rightarrow> error + AudioMatch list" where
  "scan text = scan_platforms platform_order (\<lambda>p. occurrences (pattern p) text)"

text \<open>
  The texts \<open>matchAll\<close> reports for platform \<open>p\<close> on an instance \<open>P\<close>: the occurrences
  behind the \<open>lastIndex\<close> that the pattern object of \<open>p\<close> holds.
\<close>

definition urls_from :: "AudioParser \<Rightarrow> jsstring \<Rightarrow> platform \<Rightarrow> jsstring list" where
  "urls_from P text p =
     (if lastIndex P p \<le> length text
      then occurrences (pattern p) (drop (lastIndex P p) text) else [])"

text \<open>The position of a platform in the table.\<close>

fun platform_rank :: "platform \<Rightarrow> nat" where
  "platform_rank soundcloud = 0"
| "platform_rank youtube = 1"
| "platform_rank spotify = 2"
| "platform_rank bandcamp = 3"
| "platform_rank directAudio = 4"

subsection \<open>Sequences of calls on one instance\<close>

datatype call = ParseText jsstring | HasAudioUrls jsstring | GetFirstAudio jsstring

datatype outcome =
    Detected "error + AudioMatch list"
  | Answer bool
  | First "error + AudioMatch option"

fun call_method :: "AudioParser \<Rightarrow> call \<Rightarrow> outcome \<times> AudioParser" where
  "call_method P (ParseText t) = (Detected (parseText P t), P)"
| "call_method P (HasAudioUrls t) = (case hasAudioUrls P t of (b, P') \<Rightarrow> (Answer b, P'))"
| "call_method P (GetFirstAudio t) = (First (getFirstAudio P t), P)"

fun run_calls :: "AudioParser \<Rightarrow> call list \<Rightarrow> outcome list" where
  "run_calls P [] = []"
| "run_calls P (c # cs) = (case call_method P c of (r, P') \<Rightarrow> r # run_calls P' cs)"

subsection \<open>Well-formed UTF-16\<close>

text \<open>A string in which every surrogate is half of a pair.\<close>

fun well_formed_utf16 :: "jsstring \<Rightarrow> bool" where
  "well_formed_utf16 [] = True"
| "well_formed_utf16 [c] = (\<not> lead_surrogate c \<and> \<not> trail_surrogate c)"
| "well_formed_utf16 (c # d # ds) =
     (if lead_surrogate c then trail_surrogate d \<and> well_formed_utf16 ds
      else \<not> trail_surrogate c \<and> well_formed_utf16 (d # ds))"

subsection \<open>The language of a pattern\<close>

text \<open>
  The texts a pattern can match, without the engine's order of preference. Used in
  proofs only: what holds of every text of the language holds of every match.
\<close>

fun lang :: "bool \<Rightarrow> rx \<Rightarrow> jsstring \<Rightarrow> bool" where
  "lang ic (Lit l) u = (map (canonicalize ic) u = map (canonicalize ic) l)"
| "lang ic (Plus k) u = (u \<noteq> [] \<and> list_all (in_class k) u)"
| "lang ic (Opt r) u = (u = [] \<or> lang ic r u)"
| "lang ic (Alt a b) u = (lang ic a u \<or> lang ic b u)"
| "lang ic (Seq a b) u = (\<exists>v w. u = v @ w \<and> lang ic a v \<and> lang ic b w)"
| "lang ic (Cap r) u = lang ic r u"

fun ascii_rx :: "rx \<Rightarrow> bool" where
  "ascii_rx (Lit l) = list_all (\<lambda>c. c < 128) l"
| "ascii_rx (Plus k) = (k = WordDash)"
| "ascii_rx (Opt r) = ascii_rx r"
| "ascii_rx (Alt a b) = (ascii_rx a \<and> ascii_rx b)"
| "ascii_rx (Seq a b) = (ascii_rx a \<and> ascii_rx b)"
| "ascii_rx (Cap r) = ascii_rx r"

subsection \<open>Reading the builders' results\<close>

definition decimal :: "jsstring \<Rightarrow> nat" where
  "decimal s = foldl (\<lambda>n c. 10 * n + (c - 48)) 0 s"

definition extract_id :: "regexp \<Rightarrow> jsstring \<Rightarrow> jsstring option" where
  "extract_id R link = (case string_match link R of None \<Rightarrow> None | Some m \<Rightarrow> capture m 1)"

subsection \<open>What a text must hold for a pattern to match in it\<close>

fun adjacent :: "nat \<Rightarrow> nat \<Rightarrow> jsstring \<Rightarrow> bool" where
  "adjacent x y (c # d # s) = ((c = x \<and> d = y) \<or> adjacent x y (d # s))"
| "adjacent x y [c] = False"
| "adjacent x y [] = False"

definition canon :: "jsstring \<Rightarrow> jsstring" where
  "canon s = map (canonicalize True) s"

text \<open>What a text of each platform's language must hold, read on upper-cased text.\<close>

fun needs :: "platform \<Rightarrow> jsstring \<Rightarrow> bool" where
  "needs soundcloud s = adjacent 68 46 s"
| "needs youtube s = (63 \<in> set s \<or> adjacent 85 46 s)"
| "needs spotify s = adjacent 89 46 s"
| "needs bandcamp s = adjacent 46 66 s"
| "needs directAudio s =
     (adjacent 46 77 s \<or> adjacent 46 87 s \<or> adjacent 46 79 s \<or> adjacent 46 70 s)"

section \<open>The scan of \<open>matchAll\<close> yields the occurrences\<close>

lemma occurrences_no_match:
  "match_here (ignoreCase R) (source R) s = None \<Longrightarrow>
   occurrences R s = (case s of [] \<Rightarrow> [] | c # cs \<Rightarrow> occurrences R cs)"
  by (subst occurrences.simps) simp

lemma occurrences_match:
  "match_here (ignoreCase R) (source R) s = Some (caps, rest) \<Longrightarrow>
   occurrences R s =
     (let u = take (length s - length rest) s
      in u # (if u = [] then (case s of [] \<Rightarrow> [] | c # cs \<Rightarrow> occurrences R cs)
              else occurrences R (drop (length u) s)))"
  by (subst occurrences.simps) simp

lemma occurrences_match_split:
  assumes "match_here (ignoreCase R) (source R) s = Some (caps, rest)" and "s = u @ rest"
  shows "occurrences R s =
     u # (if u = [] then (case s of [] \<Rightarrow> [] | c # cs \<Rightarrow> occurrences R cs)
          else occurrences R rest)"
proof -
  from assms(2) have "take (length s - length rest) s = u" "drop (length u) s = rest"
    by simp_all
  with occurrences_match [OF assms(1)] show ?thesis by (simp add: Let_def)
qed

lemma exec_no_match_here:
  assumes "global R" "li \<le> length S"
    and "match_here (ignoreCase R) (source R) (drop li S) = None"
  shows "RegExpBuiltinExec R li S = RegExpBuiltinExec R (Suc li) S"
proof -
  from assms have "search R S li = search R S (Suc li)"
    by (simp add: search.simps [of R S li])
  with assms(1) show ?thesis
    by (simp add: RegExpBuiltinExec_def split: option.splits prod.splits)
qed

lemma exec_match_here:
  assumes "global R" "li \<le> length S"
    and "match_here (ignoreCase R) (source R) (drop li S) = Some (caps, rest)"
  shows "RegExpBuiltinExec R li S =
    (Some \<lparr>index = li, matched = take (length (drop li S) - length rest) (drop li S), groups = caps\<rparr>,
     length S - length rest)"
proof -
  from match_here_suffix [OF assms(3)] obtain u where u: "drop li S = u @ rest" by blast
  then have "length S - li = length u + length rest"
    by (metis length_append length_drop)
  with assms(2) have "length S - length rest - li = length S - li - length rest" by simp
  with assms show ?thesis
    by (simp add: RegExpBuiltinExec_def search.simps [of R S li])
qed

lemma exec_past_end:
  "global R \<Longrightarrow> length S < li \<Longrightarrow> RegExpBuiltinExec R li S = (None, 0)"
  by (simp add: RegExpBuiltinExec_def search.simps [of R S li])

lemma matchAll_past_end:
  "global R \<Longrightarrow> length S < li \<Longrightarrow> matchAll_iter R S li = []"
  by (subst matchAll_iter.simps) (simp add: exec_past_end)

lemma matchAll_occurrences:
  assumes g: "global R"
  shows "li \<le> length S \<Longrightarrow> map matched (matchAll_iter R S li) = occurrences R (drop li S)"
proof (induction "length S - li" arbitrary: li rule: less_induct)
  case less
  let ?s = "drop li S"
  show ?case
  proof (cases "match_here (ignoreCase R) (source R) ?s")
    case None
    from exec_no_match_here [OF g less.prems None]
    have step: "matchAll_iter R S li = matchAll_iter R S (Suc li)"
      by (simp add: matchAll_iter.simps [of R S li] matchAll_iter.simps [of R S "Suc li"])
    show ?thesis
    proof (cases "li < length S")
      case True
      then have "map matched (matchAll_iter R S (Suc li)) = occurrences R (drop (Suc li) S)"
        by (intro less.hyps) auto
      moreover from True obtain c where "?s = c # drop (Suc li) S"
        by (metis Cons_nth_drop_Suc)
      ultimately show ?thesis using occurrences_no_match [OF None] step
        by simp
    next
      case False
      with less.prems have "li = length S" by simp
      with g have "matchAll_iter R S (Suc li) = []"
        by (simp add: matchAll_past_end)
      with occurrences_no_match [OF None] step \<open>li = length S\<close> show ?thesis
        by simp
    qed
  next
    case (Some st)
    obtain caps rest where st: "st = (caps, rest)" by (cases st)
    from match_here_suffix Some st obtain u where u: "?s = u @ rest" by blast
    then have len: "length S - li = length u + length rest"
      by (metis length_append length_drop)
    have tk: "take (length ?s - length rest) ?s = u" using u by simp
    have e: "length S - length rest = li + length u" using len less.prems by simp
    from exec_match_here [OF g less.prems Some [unfolded st]] tk e
    have ex: "RegExpBuiltinExec R li S = (Some \<lparr>index = li, matched = u, groups = caps\<rparr>, li + length u)"
      by simp
    show ?thesis
    proof (cases "u = []")
      case True
      have next_li: "map matched (matchAll_iter R S (Suc li)) =
        (case ?s of [] \<Rightarrow> [] | c # cs \<Rightarrow> occurrences R cs)"
      proof (cases "li < length S")
        case True
        then have "map matched (matchAll_iter R S (Suc li)) = occurrences R (drop (Suc li) S)"
          by (intro less.hyps) auto
        moreover from True obtain c where "?s = c # drop (Suc li) S"
          by (metis Cons_nth_drop_Suc)
        ultimately show ?thesis by simp
      next
        case False
        with less.prems have "li = length S" by simp
        with g show ?thesis
          by (simp add: matchAll_past_end)
      qed
      with True ex g occurrences_match_split [OF Some [unfolded st] u] show ?thesis
        by (simp add: matchAll_iter.simps [of R S li])
    next
      case False
      then have "0 < length u" by simp
      with len have "length S - (li + length u) < length S - li" by linarith
      moreover have "li + length u \<le> length S" using len less.prems by simp
      ultimately have "map matched (matchAll_iter R S (li + length u)) =
          occurrences R (drop (li + length u) S)"
        by (intro less.hyps)
      moreover have "drop (li + length u) S = rest"
        using u by (metis append_eq_conv_conj drop_drop add.commute)
      ultimately show ?thesis using False ex g occurrences_match_split [OF Some [unfolded st] u]
        by (simp add: matchAll_iter.simps [of R S li])
    qed
  qed
qed

section \<open>\<open>parseText\<close> in terms of occurrences\<close>

lemma push_matches_urls:
  "push_matches p ms acc =
     (case audio_of_urls p (map matched ms) of Inl e \<Rightarrow> Inl e | Inr r \<Rightarrow> Inr (acc @ r))"
  by (induction ms arbitrary: acc) (auto split: sum.splits)

lemma parse_platforms_scan:
  "parse_platforms ps P text acc =
     (case scan_platforms ps (\<lambda>p. map matched (matchAll_iter (pattern p) text (lastIndex P p))) of
        Inl e \<Rightarrow> Inl e | Inr r \<Rightarrow> Inr (acc @ r))"
  by (induction ps arbitrary: acc) (auto simp: push_matches_urls split: sum.splits)

lemma matchAll_urls:
  "map matched (matchAll_iter (pattern p) text li) =
     (if li \<le> length text then occurrences (pattern p) (drop li text) else [])"
  by (simp add: matchAll_occurrences matchAll_past_end pattern_def)

lemma parseText_scan_platforms:
  "parseText P text =
     scan_platforms platform_order
       (\<lambda>p. if lastIndex P p \<le> length text
            then occurrences (pattern p) (drop (lastIndex P p) text) else [])"
  by (simp add: parseText_def parse_platforms_scan matchAll_urls split: sum.splits)

lemma parseText_urls_from:
  "parseText P text = scan_platforms platform_order (urls_from P text)"
  unfolding parseText_scan_platforms urls_from_def ..

lemma urls_from_new: "urls_from new_AudioParser text p = occurrences (pattern p) text"
  by (simp add: urls_from_def new_AudioParser_def)

lemma parseText_new: "parseText new_AudioParser text = scan text"
  by (simp add: parseText_scan_platforms scan_def new_AudioParser_def)

lemma occurrences_substring:
  "u \<in> set (occurrences R s) \<Longrightarrow>
   \<exists>pre rest caps. s = pre @ u @ rest
     \<and> match_here (ignoreCase R) (source R) (u @ rest) = Some (caps, rest)"
proof (induction "length s" arbitrary: s rule: less_induct)
  case less
  have tail: "\<exists>pre rest caps. s = pre @ u @ rest
      \<and> match_here (ignoreCase R) (source R) (u @ rest) = Some (caps, rest)"
    if "s = c # cs" "u \<in> set (occurrences R cs)" for c cs
  proof -
    from less.hyps [of cs] that obtain pre rest caps where
      "cs = pre @ u @ rest" "match_here (ignoreCase R) (source R) (u @ rest) = Some (caps, rest)"
      by auto
    with that(1) have "s = (c # pre) @ u @ rest" by simp
    with \<open>match_here _ _ (u @ rest) = _\<close> show ?thesis by blast
  qed
  show ?case
  proof (cases "match_here (ignoreCase R) (source R) s")
    case None
    from less.prems occurrences_no_match [OF None]
    obtain c cs where "s = c # cs" "u \<in> set (occurrences R cs)"
      by (cases s) auto
    then show ?thesis by (rule tail)
  next
    case (Some st)
    obtain caps rest where st: "st = (caps, rest)" by (cases st)
    from match_here_suffix [OF Some [unfolded st]] obtain v where v: "s = v @ rest" by blast
    note occ = occurrences_match_split [OF Some [unfolded st] v]
    show ?thesis
    proof (cases "u = v")
      case True
      with v Some st have "s = [] @ u @ rest"
        "match_here (ignoreCase R) (source R) (u @ rest) = Some (caps, rest)" by simp_all
      then show ?thesis by blast
    next
      case False
      show ?thesis
      proof (cases "v = []")
        case True
        with False less.prems occ obtain c cs where "s = c # cs" "u \<in> set (occurrences R cs)"
          by (cases s) auto
        then show ?thesis by (rule tail)
      next
        case nonempty: False
        with False less.prems occ have "u \<in> set (occurrences R rest)" by simp
        moreover from nonempty v have "length rest < length s" by simp
        ultimately obtain pre rest' caps' where
          "rest = pre @ u @ rest'"
          "match_here (ignoreCase R) (source R) (u @ rest') = Some (caps', rest')"
          using less.hyps [of rest] by blast
        with v have "s = (v @ pre) @ u @ rest'" by simp
        with \<open>match_here _ _ (u @ rest') = _\<close> show ?thesis by blast
      qed
    qed
  qed
qed

lemma occurrences_nil_tail:
  "occurrences R (c # cs) = [] \<Longrightarrow> occurrences R cs = []"
proof (cases "match_here (ignoreCase R) (source R) (c # cs)")
  case None
  assume "occurrences R (c # cs) = []"
  with occurrences_no_match [OF None] show ?thesis by simp
next
  case (Some st)
  assume nil: "occurrences R (c # cs) = []"
  obtain caps rest where st: "st = (caps, rest)" by (cases st)
  from occurrences_match [OF Some [unfolded st]] nil show ?thesis by (simp add: Let_def)
qed

lemma occurrences_nil_drop:
  "occurrences R s = [] \<Longrightarrow> occurrences R (drop n s) = []"
proof (induction n arbitrary: s)
  case 0
  then show ?case by simp
next
  case (Suc n)
  show ?case
  proof (cases s)
    case Nil
    with Suc.prems show ?thesis by simp
  next
    case (Cons c cs)
    with Suc.prems have "occurrences R cs = []" by (simp add: occurrences_nil_tail)
    with Suc.IH Cons show ?thesis by simp
  qed
qed

lemma urls_from_nil:
  "occurrences (pattern p) text = [] \<Longrightarrow> urls_from P text p = []"
  by (simp add: urls_from_def occurrences_nil_drop)

section \<open>Every match is a text of the pattern's language\<close>

lemma lit_match_lang:
  "lit_match ic l s = Some s' \<Longrightarrow> \<exists>u. s = u @ s' \<and> map (canonicalize ic) u = map (canonicalize ic) l"
proof (induction ic l s rule: lit_match.induct)
  case (3 ic p ps c cs)
  then have c: "canonicalize ic c = canonicalize ic p" and "lit_match ic ps cs = Some s'"
    by (auto split: if_splits)
  with "3.IH" obtain u where "cs = u @ s'" "map (canonicalize ic) u = map (canonicalize ic) ps"
    by blast
  with c have "c # cs = (c # u) @ s' \<and> map (canonicalize ic) (c # u) = map (canonicalize ic) (p # ps)"
    by simp
  then show ?case by blast
qed auto

lemma star_ends_lang:
  "x \<in> set (star_ends k s) \<Longrightarrow> \<exists>u. s = u @ x \<and> list_all (in_class k) u"
proof (induction s)
  case (Cons c cs)
  show ?case
  proof (cases "x = c # cs")
    case True
    then show ?thesis by simp
  next
    case False
    with Cons.prems have c: "in_class k c" and "x \<in> set (star_ends k cs)"
      by (auto split: if_splits)
    with Cons.IH obtain u where "cs = u @ x" "list_all (in_class k) u" by blast
    with c have "c # cs = (c # u) @ x \<and> list_all (in_class k) (c # u)" by simp
    then show ?thesis by blast
  qed
qed simp

lemma matcher_lang:
  "(caps', s') \<in> set (matcher ic r (caps, s)) \<Longrightarrow> \<exists>u. s = u @ s' \<and> lang ic r u"
proof (induction r arbitrary: caps s caps' s')
  case (Lit l)
  then have "lit_match ic l s = Some s'" by (auto split: option.splits)
  from lit_match_lang [OF this] show ?case by simp
next
  case (Plus k)
  then obtain c cs where s: "s = c # cs" and c: "in_class k c" and "s' \<in> set (star_ends k cs)"
    by (auto split: list.splits if_splits)
  with star_ends_lang obtain u where "cs = u @ s'" "list_all (in_class k) u" by blast
  with s c have "s = (c # u) @ s' \<and> lang ic (Plus k) (c # u)" by simp
  then show ?case by blast
next
  case (Opt r)
  show ?case
  proof (cases "(caps', s') \<in> set (matcher ic r (caps, s))")
    case True
    from Opt.IH [OF this] show ?thesis by auto
  next
    case False
    with Opt.prems have "s' = s" by auto
    then show ?thesis by simp
  qed
next
  case (Alt a b)
  then show ?case by fastforce
next
  case (Seq a b)
  from Seq.prems obtain c1 s1 where
    a: "(c1, s1) \<in> set (matcher ic a (caps, s))" and
    b: "(caps', s') \<in> set (matcher ic b (c1, s1))"
    by auto
  from Seq.IH(1) [OF a] obtain u where u: "s = u @ s1" "lang ic a u" by blast
  from Seq.IH(2) [OF b] obtain v where v: "s1 = v @ s'" "lang ic b v" by blast
  from u v have "s = (u @ v) @ s' \<and> lang ic (Seq a b) (u @ v)" by auto
  then show ?case by blast
next
  case (Cap r)
  then obtain c0 where "(c0, s') \<in> set (matcher ic r (caps, s))" by auto
  from Cap.IH [OF this] show ?case by simp
qed

lemma match_here_lang:
  assumes "match_here ic r s = Some (caps, rest)"
  shows "\<exists>u. s = u @ rest \<and> lang ic r u"
proof -
  from assms have "(caps, rest) \<in> set (matcher ic r ([], s))"
    by (auto simp: match_here_def split: list.splits)
  then show ?thesis by (rule matcher_lang)
qed

lemma occurrences_lang:
  "u \<in> set (occurrences R s) \<Longrightarrow> lang (ignoreCase R) (source R) u"
proof (induction "length s" arbitrary: s rule: less_induct)
  case less
  show ?case
  proof (cases "match_here (ignoreCase R) (source R) s")
    case None
    from less.prems occurrences_no_match [OF None]
    obtain c cs where "s = c # cs" "u \<in> set (occurrences R cs)"
      by (cases s) auto
    with less.hyps [of cs] show ?thesis by simp
  next
    case (Some st)
    obtain caps rest where st: "st = (caps, rest)" by (cases st)
    from match_here_lang [OF Some [unfolded st]] obtain v
      where v: "s = v @ rest" "lang (ignoreCase R) (source R) v" by blast
    note occ = occurrences_match_split [OF Some [unfolded st] v(1)]
    show ?thesis
    proof (cases "u = v")
      case True
      with v show ?thesis by simp
    next
      case False
      show ?thesis
      proof (cases "v = []")
        case True
        with False less.prems occ obtain c cs where "s = c # cs" "u \<in> set (occurrences R cs)"
          by (cases s) auto
        with less.hyps [of cs] show ?thesis by simp
      next
        case nonempty: False
        with False less.prems occ have "u \<in> set (occurrences R rest)" by simp
        moreover from nonempty v have "length rest < length s" by simp
        ultimately show ?thesis using less.hyps [of rest] by simp
      qed
    qed
  qed
qed

lemma canonicalize_ascii: "canonicalize ic c < 128 \<longleftrightarrow> c < 128"
  by (auto simp: canonicalize_def)

lemma lang_ascii: "ascii_rx r \<Longrightarrow> lang ic r u \<Longrightarrow> list_all (\<lambda>c. c < 128) u"
proof (induction r arbitrary: u)
  case (Lit l)
  then have "list_all (\<lambda>c. c < 128) (map (canonicalize ic) l)"
    by (simp add: list_all_iff canonicalize_ascii)
  with Lit have "list_all (\<lambda>c. c < 128) (map (canonicalize ic) u)" by simp
  then show ?case by (simp add: list_all_iff canonicalize_ascii)
next
  case (Plus k)
  then have "list_all (in_class WordDash) u" by simp
  then show ?case by (auto simp: list_all_iff is_word_def)
next
  case (Seq a b)
  then show ?case by auto
qed auto

section \<open>When the builders return\<close>

lemma unreserved_not_surrogate:
  "uri_unreserved c \<Longrightarrow> \<not> lead_surrogate c \<and> \<not> trail_surrogate c"
  unfolding uri_unreserved_def lead_surrogate_def trail_surrogate_def by linarith

lemma lead_not_trail: "lead_surrogate c \<Longrightarrow> \<not> trail_surrogate c"
  unfolding lead_surrogate_def trail_surrogate_def by linarith

lemma encodeURIComponent_well_formed:
  "(\<exists>r. encodeURIComponent s = Inr r) \<longleftrightarrow> well_formed_utf16 s"
proof (induction s rule: encodeURIComponent.induct)
  case 1
  show ?case by simp
next
  case (2 c)
  show ?case using unreserved_not_surrogate [of c] by simp
next
  case (3 c d ds)
  show ?case
  proof (cases "uri_unreserved c")
    case True
    with "3.IH"(1) unreserved_not_surrogate [of c] show ?thesis
      by (simp split: sum.splits) (metis sum.distinct(1))
  next
    case False
    note unres = this
    show ?thesis
    proof (cases "trail_surrogate c")
      case True
      with unres lead_not_trail [of c] show ?thesis by auto
    next
      case False
      note notrail = this
      show ?thesis
      proof (cases "lead_surrogate c")
        case True
        show ?thesis
        proof (cases "trail_surrogate d")
          case True
          with "3.IH"(2) unres notrail \<open>lead_surrogate c\<close> show ?thesis
            by (simp split: sum.splits) (metis sum.distinct(1))
        next
          case False
          with unres notrail \<open>lead_surrogate c\<close> show ?thesis by simp
        qed
      next
        case False
        with "3.IH"(3) unres notrail show ?thesis
          by (simp split: sum.splits) (metis sum.distinct(1))
      qed
    qed
  qed
qed

lemma ascii_well_formed: "list_all (\<lambda>c. c < 128) s \<Longrightarrow> well_formed_utf16 s"
  by (induction s rule: well_formed_utf16.induct)
    (auto simp: lead_surrogate_def trail_surrogate_def)

lemma embed_other_total: "p \<noteq> soundcloud \<Longrightarrow> \<exists>h. platform_embed p u = Inr h"
  by (cases p) simp_all

lemma createSoundCloudEmbed_total:
  "(\<exists>h. createSoundCloudEmbed u = Inr h) \<longleftrightarrow> well_formed_utf16 u"
  using encodeURIComponent_well_formed [of u]
  by (auto simp: createSoundCloudEmbed_def split: sum.splits)

lemma ascii_soundcloud_pattern: "ascii_rx (pattern_source soundcloud)"
  by (simp add: js_def)

lemma embed_occurrence_total:
  assumes "u \<in> set (occurrences (pattern p) s)"
  shows "\<exists>h. platform_embed p u = Inr h"
proof (cases "p = soundcloud")
  case True
  from occurrences_lang [OF assms] True have "lang True (pattern_source soundcloud) u"
    by (simp add: pattern_def)
  with ascii_soundcloud_pattern have "list_all (\<lambda>c. c < 128) u" by (rule lang_ascii)
  then have "well_formed_utf16 u" by (rule ascii_well_formed)
  with True show ?thesis by (simp add: createSoundCloudEmbed_total)
next
  case False
  then show ?thesis by (rule embed_other_total)
qed

lemma audio_of_urls_total:
  assumes "\<And>u. u \<in> set us \<Longrightarrow> \<exists>h. platform_embed p u = Inr h"
  shows "\<exists>r. audio_of_urls p us = Inr r
    \<and> map (\<lambda>a. (platform a, url a)) r = map (Pair p) us
    \<and> list_all (\<lambda>a. platform_embed (platform a) (url a) = Inr (embedHtml a)) r"
  using assms
proof (induction us)
  case Nil
  show ?case by simp
next
  case (Cons u us)
  from Cons.prems [of u] obtain h where h: "platform_embed p u = Inr h" by auto
  from Cons.IH Cons.prems obtain r where r: "audio_of_urls p us = Inr r"
    "map (\<lambda>a. (platform a, url a)) r = map (Pair p) us"
    "list_all (\<lambda>a. platform_embed (platform a) (url a) = Inr (embedHtml a)) r"
    by auto
  with h show ?case by simp
qed

lemma scan_platforms_total:
  assumes "\<And>p u. u \<in> set (f p) \<Longrightarrow> \<exists>h. platform_embed p u = Inr h"
  shows "\<exists>r. scan_platforms ps f = Inr r
    \<and> map (\<lambda>a. (platform a, url a)) r = concat (map (\<lambda>p. map (Pair p) (f p)) ps)
    \<and> list_all (\<lambda>a. platform_embed (platform a) (url a) = Inr (embedHtml a)) r"
proof (induction ps)
  case Nil
  show ?case by simp
next
  case (Cons p ps)
  from audio_of_urls_total [of "f p" p] assms obtain r where r: "audio_of_urls p (f p) = Inr r"
    "map (\<lambda>a. (platform a, url a)) r = map (Pair p) (f p)"
    "list_all (\<lambda>a. platform_embed (platform a) (url a) = Inr (embedHtml a)) r"
    by blast
  from Cons.IH obtain r' where r': "scan_platforms ps f = Inr r'"
    "map (\<lambda>a. (platform a, url a)) r' = concat (map (\<lambda>p. map (Pair p) (f p)) ps)"
    "list_all (\<lambda>a. platform_embed (platform a) (url a) = Inr (embedHtml a)) r'"
    by blast
  from r r' show ?case by simp
qed

lemma parseText_total:
  "\<exists>ms. parseText P text = Inr ms
    \<and> map (\<lambda>a. (platform a, url a)) ms = concat (map (\<lambda>p. map (Pair p) (urls_from P text p)) platform_order)
    \<and> list_all (\<lambda>a. platform_embed (platform a) (url a) = Inr (embedHtml a)) ms"
proof -
  have "\<And>p u. u \<in> set (urls_from P text p) \<Longrightarrow> \<exists>h. platform_embed p u = Inr h"
    by (auto simp: urls_from_def dest: embed_occurrence_total split: if_splits)
  from scan_platforms_total [of "urls_from P text", OF this, of platform_order]
  show ?thesis by (simp add: parseText_urls_from)
qed

section \<open>Order of the results\<close>

lemma filter_fst_Pair:
  "filter (\<lambda>x. fst x = p) (map (Pair q) l) = (if q = p then map (Pair q) l else [])"
  by (induction l) auto

lemma filter_platform:
  assumes "map (\<lambda>a. (platform a, url a)) ms = concat (map (\<lambda>p. map (Pair p) (f p)) platform_order)"
  shows "map url (filter (\<lambda>a. platform a = p) ms) = f p"
proof -
  have "map url (filter (\<lambda>a. platform a = p) ms) =
      map snd (filter (\<lambda>x. fst x = p) (map (\<lambda>a. (platform a, url a)) ms))"
    by (induction ms) auto
  also have "\<dots> = f p"
    unfolding assms by (cases p) (simp_all add: platform_order_def filter_fst_Pair comp_def)
  finally show ?thesis .
qed

lemma sorted_platforms:
  assumes "map (\<lambda>a. (platform a, url a)) ms = concat (map (\<lambda>p. map (Pair p) (f p)) platform_order)"
  shows "sorted (map (\<lambda>a. platform_rank (platform a)) ms)"
proof -
  have "map (\<lambda>a. platform_rank (platform a)) ms =
      map (\<lambda>x. platform_rank (fst x)) (map (\<lambda>a. (platform a, url a)) ms)"
    by simp
  also have "\<dots> = replicate (length (f soundcloud)) 0 @ replicate (length (f youtube)) 1
      @ replicate (length (f spotify)) 2 @ replicate (length (f bandcamp)) 3
      @ replicate (length (f directAudio)) 4"
    unfolding assms by (simp add: platform_order_def comp_def map_replicate_const)
  finally show ?thesis by (auto simp: sorted_append)
qed

section \<open>Evaluation on concrete texts\<close>

lemmas eval_regex = occurrences.simps match_here_def pattern_def js_def canonicalize_def
  is_word_def is_space_def Let_def

lemmas eval_exec = RegExpBuiltinExec_def search.simps match_here_def pattern_def js_def
  canonicalize_def is_word_def is_space_def

lemma no_links_here: "occurrences (pattern p) (js ''no links here'') = []"
  by (cases p) (simp_all add: eval_regex)

section \<open>Captures of the builders' patterns\<close>

lemma search_match_here:
  "search R S j = Some (i, e, caps) \<Longrightarrow>
   \<exists>rest. match_here (ignoreCase R) (source R) (drop i S) = Some (caps, rest)"
proof (induction R S j rule: search.induct)
  case (1 R S j)
  show ?case
  proof (cases "match_here (ignoreCase R) (source R) (drop j S)")
    case None
    with "1.prems" have "j \<le> length S" and "search R S (Suc j) = Some (i, e, caps)"
      by (auto simp: search.simps [of R S j] split: if_splits)
    with "1.IH"(1) None show ?thesis by fastforce
  next
    case (Some st)
    obtain c rest where st: "st = (c, rest)" by (cases st)
    from "1.prems" Some st have "i = j" "caps = c"
      by (auto simp: search.simps [of R S j] split: if_splits)
    with Some st show ?thesis by simp
  qed
qed

lemma string_match_matcher:
  assumes "string_match link R = Some m"
  shows "\<exists>s rest. (groups m, rest) \<in> set (matcher (ignoreCase R) (source R) ([], s))"
proof -
  from assms obtain i e caps where sr: "search R link 0 = Some (i, e, caps)"
    and m: "groups m = caps"
    by (auto simp: string_match_def RegExpBuiltinExec_def split: option.splits)
  from search_match_here [OF sr] obtain rest where
    "match_here (ignoreCase R) (source R) (drop i link) = Some (caps, rest)" by blast
  then have "(caps, rest) \<in> set (matcher (ignoreCase R) (source R) ([], drop i link))"
    by (auto simp: match_here_def split: list.splits)
  with m show ?thesis by blast
qed

lemma plus_consumes:
  assumes "(caps', s') \<in> set (matcher ic (Plus k) (caps, s))"
  shows "caps' = caps \<and> length s' < length s
    \<and> list_all (in_class k) (take (length s - length s') s)"
proof -
  from assms obtain c cs where s: "s = c # cs" and c: "in_class k c" and "caps' = caps"
    and "s' \<in> set (star_ends k cs)"
    by (auto split: list.splits if_splits)
  with star_ends_lang obtain u where u: "cs = u @ s'" "list_all (in_class k) u" by blast
  with s have "take (length s - length s') s = c # u" by simp
  with s c u \<open>caps' = caps\<close> show ?thesis by simp
qed

lemma cap_plus:
  assumes "(caps', s') \<in> set (matcher ic (Cap (Plus k)) (caps, s))"
  shows "\<exists>v. caps' = caps @ [v] \<and> v \<noteq> [] \<and> list_all (in_class k) v"
proof -
  from assms obtain c0 where c0: "(c0, s') \<in> set (matcher ic (Plus k) (caps, s))"
    and caps': "caps' = c0 @ [take (length s - length s') s]"
    by auto
  from plus_consumes [OF c0] caps' show ?thesis by auto
qed

lemma lit_keeps_captures:
  "(caps', s') \<in> set (matcher ic (Lit l) (caps, s)) \<Longrightarrow> caps' = caps"
  by (auto split: option.splits)

lemma lit_match_exact: "lit_match False l s = Some s' \<Longrightarrow> s = l @ s'"
  by (induction False l s rule: lit_match.induct) (auto simp: canonicalize_def split: if_splits)

lemma matcher_SeqE:
  assumes "(caps', s') \<in> set (matcher ic (Seq a b) st)"
  obtains c1 s1 where "(c1, s1) \<in> set (matcher ic a st)"
    and "(caps', s') \<in> set (matcher ic b (c1, s1))"
  using assms by auto

lemma cap_lit3_exact:
  assumes "(caps', s') \<in> set (matcher False (Cap (Alt (Lit a) (Alt (Lit b) (Lit c)))) (caps, s))"
  shows "caps' = caps @ [a] \<or> caps' = caps @ [b] \<or> caps' = caps @ [c]"
proof -
  from assms obtain c0 where c0: "(c0, s') \<in> set (matcher False (Alt (Lit a) (Alt (Lit b) (Lit c))) (caps, s))"
    and caps': "caps' = c0 @ [take (length s - length s') s]"
    by auto
  from c0 have "lit_match False a s = Some s' \<or> lit_match False b s = Some s'
      \<or> lit_match False c s = Some s'" and "c0 = caps"
    by (auto split: option.splits)
  with caps' show ?thesis by (auto dest!: lit_match_exact)
qed



lemma spotify_captures:
  assumes "string_match link spotify_item_pattern = Some m"
  shows "\<exists>t i. groups m = [t, i] \<and> t \<in> {js ''track'', js ''album'', js ''playlist''}
    \<and> i \<noteq> [] \<and> list_all (in_class WordDash) i"
proof -
  let ?T = "Alt (Lit (js ''track'')) (Alt (Lit (js ''album'')) (Lit (js ''playlist'')))"
  from string_match_matcher [OF assms] obtain s rest where
    "(groups m, rest) \<in> set (matcher False
        (Seq (Lit (js ''spotify.com/'')) (Seq (Cap ?T) (Seq (Lit (js ''/'')) (Cap (Plus WordDash)))))
        ([], s))"
    by (auto simp: spotify_item_pattern_def simp del: matcher.simps)
  then obtain c1 s1 where
    1: "(c1, s1) \<in> set (matcher False (Lit (js ''spotify.com/'')) ([], s))" and
    r1: "(groups m, rest) \<in> set (matcher False (Seq (Cap ?T) (Seq (Lit (js ''/'')) (Cap (Plus WordDash)))) (c1, s1))"
    by (rule matcher_SeqE)
  from r1 obtain c2 s2 where
    2: "(c2, s2) \<in> set (matcher False (Cap ?T) (c1, s1))" and
    r2: "(groups m, rest) \<in> set (matcher False (Seq (Lit (js ''/'')) (Cap (Plus WordDash))) (c2, s2))"
    by (rule matcher_SeqE)
  from r2 obtain c3 s3 where
    3: "(c3, s3) \<in> set (matcher False (Lit (js ''/'')) (c2, s2))" and
    4: "(groups m, rest) \<in> set (matcher False (Cap (Plus WordDash)) (c3, s3))"
    by (rule matcher_SeqE)
  from lit_keeps_captures [OF 1] have c1: "c1 = []" .
  from cap_lit3_exact [OF 2] c1
  have c2: "c2 = [js ''track''] \<or> c2 = [js ''album''] \<or> c2 = [js ''playlist'']" by simp
  from lit_keeps_captures [OF 3] have c3: "c3 = c2" .
  from cap_plus [OF 4] obtain i where "groups m = c3 @ [i]" "i \<noteq> []" "list_all (in_class WordDash) i"
    by blast
  with c2 c3 show ?thesis by auto
qed


section \<open>Texts in which no pattern matches\<close>

lemma adjacent_Cons:
  "adjacent x y (c # s) = ((s \<noteq> [] \<and> c = x \<and> hd s = y) \<or> adjacent x y s)"
  by (cases s) auto

lemma adjacent_append:
  "adjacent x y (u @ v) =
     (adjacent x y u \<or> adjacent x y v \<or> (u \<noteq> [] \<and> v \<noteq> [] \<and> last u = x \<and> hd v = y))"
proof (induction u)
  case Nil
  show ?case by simp
next
  case (Cons c u)
  show ?case
  proof (cases u)
    case Nil
    then show ?thesis by (auto simp: adjacent_Cons)
  next
    case (Cons d u')
    with Cons.IH show ?thesis by auto
  qed
qed

lemma adjacent_mono: "adjacent x y u \<Longrightarrow> adjacent x y (p @ u @ q)"
  by (simp add: adjacent_append)

lemma adjacent_left_in: "adjacent x y s \<Longrightarrow> x \<in> set s"
  by (induction x y s rule: adjacent.induct) auto

lemma adjacent_right_in: "adjacent x y s \<Longrightarrow> y \<in> set s"
  by (induction x y s rule: adjacent.induct) auto

lemma no_adjacent_before_dot:
  assumes "46 \<notin> set A" "46 \<notin> set B" "\<not> adjacent x 46 C" "C \<noteq> []" "hd C \<noteq> 46"
  shows "\<not> adjacent x 46 (A @ C @ B)"
proof -
  have "\<not> adjacent x 46 A" "\<not> adjacent x 46 B"
    using assms(1,2) adjacent_right_in by blast+
  moreover have "B \<noteq> [] \<Longrightarrow> hd B \<noteq> 46" using assms(2) hd_in_set by metis
  ultimately show ?thesis using assms(3-5) by (auto simp: adjacent_append)
qed

lemma no_adjacent_after_dot:
  assumes "46 \<notin> set A" "46 \<notin> set B" "\<not> adjacent 46 y C" "C \<noteq> []" "last C \<noteq> 46"
  shows "\<not> adjacent 46 y (A @ C @ B)"
proof -
  have "\<not> adjacent 46 y A" "\<not> adjacent 46 y B"
    using assms(1,2) adjacent_left_in by blast+
  moreover have "A \<noteq> [] \<Longrightarrow> last A \<noteq> 46" using assms(1) last_in_set by metis
  ultimately show ?thesis using assms(3-5) by (auto simp: adjacent_append)
qed

lemma canonicalize_dot: "canonicalize ic c = 46 \<longleftrightarrow> c = 46"
  by (auto simp: canonicalize_def)

lemma canonicalize_question: "canonicalize ic c = 63 \<longleftrightarrow> c = 63"
  by (auto simp: canonicalize_def)

lemma canon_no_dot: "46 \<notin> set s \<Longrightarrow> 46 \<notin> set (canon s)"
proof
  assume no: "46 \<notin> set s" and "46 \<in> set (canon s)"
  then obtain c where c: "c \<in> set s" "canonicalize True c = 46"
    by (auto simp: canon_def)
  with canonicalize_dot have "c = 46" by blast
  with c no show False by simp
qed

lemma canon_no_question: "63 \<notin> set s \<Longrightarrow> 63 \<notin> set (canon s)"
proof
  assume no: "63 \<notin> set s" and "63 \<in> set (canon s)"
  then obtain c where c: "c \<in> set s" "canonicalize True c = 63"
    by (auto simp: canon_def)
  with canonicalize_question have "c = 63" by blast
  with c no show False by simp
qed

lemma lang_SeqE:
  assumes "lang ic (Seq a b) u"
  obtains v w where "u = v @ w" "lang ic a v" "lang ic b w"
  using assms by auto

lemma canon_append: "canon (u @ v) = canon u @ canon v"
  by (simp add: canon_def)

lemma needs_mono: "needs p u \<Longrightarrow> needs p (a @ u @ b)"
  by (cases p) (auto simp: adjacent_mono)

lemmas eval_canon = canon_def js_def canonicalize_def

lemma lang_needs_soundcloud:
  assumes "lang True (pattern_source soundcloud) u"
  shows "needs soundcloud (canon u)"
proof -
  from assms obtain a b l c where "u = a @ b @ l @ c"
    and "canon l = canon (js ''soundcloud.com/'')"
    by (auto simp: canon_def)
  then have "canon u = canon a @ canon b @ canon (js ''soundcloud.com/'') @ canon c"
    by (simp add: canon_append)
  moreover have "adjacent 68 46 (canon (js ''soundcloud.com/''))" by (simp add: eval_canon)
  ultimately show ?thesis by (simp add: adjacent_append)
qed

lemma lang_needs_youtube:
  assumes "lang True (pattern_source youtube) u"
  shows "needs youtube (canon u)"
proof -
  from assms obtain a b l c where u: "u = a @ b @ l @ c"
    and "canon l = canon (js ''youtube.com/watch?v='') \<or> canon l = canon (js ''youtu.be/'')"
    by (auto simp: canon_def)
  moreover have "63 \<in> set (canon (js ''youtube.com/watch?v=''))" by (simp add: eval_canon)
  moreover have "adjacent 85 46 (canon (js ''youtu.be/''))" by (simp add: eval_canon)
  ultimately have "63 \<in> set (canon l) \<or> adjacent 85 46 (canon l)" by auto
  with u show ?thesis by (auto simp: canon_append adjacent_append)
qed

lemma lang_needs_spotify:
  assumes "lang True (pattern_source spotify) u"
  shows "needs spotify (canon u)"
proof -
  from assms obtain a b l c where "u = a @ b @ l @ c"
    and "canon l = canon (js ''spotify.com/'')"
    by (auto simp: canon_def)
  then have "canon u = canon a @ canon b @ canon (js ''spotify.com/'') @ canon c"
    by (simp add: canon_append)
  moreover have "adjacent 89 46 (canon (js ''spotify.com/''))" by (simp add: eval_canon)
  ultimately show ?thesis by (simp add: adjacent_append)
qed

lemma lang_needs_bandcamp:
  assumes "lang True (pattern_source bandcamp) u"
  shows "needs bandcamp (canon u)"
proof -
  from assms obtain a b l c where "u = a @ b @ l @ c"
    and "canon l = canon (js ''.bandcamp.com/'')"
    by (auto simp: canon_def)
  then have "canon u = canon a @ canon b @ canon (js ''.bandcamp.com/'') @ canon c"
    by (simp add: canon_append)
  moreover have "adjacent 46 66 (canon (js ''.bandcamp.com/''))" by (simp add: eval_canon)
  ultimately show ?thesis by (simp add: adjacent_append)
qed

lemma lang_needs_directAudio:
  assumes "lang True (pattern_source directAudio) u"
  shows "needs directAudio (canon u)"
proof -
  let ?ext = "Alt (Lit (js ''mp3'')) (Alt (Lit (js ''wav'')) (Alt (Lit (js ''ogg''))
            (Alt (Lit (js ''m4a'')) (Lit (js ''flac'')))))"
  let ?r4 = "Seq (Lit (js ''.'')) ?ext"
  let ?r3 = "Seq (Plus NotSpace) ?r4"
  let ?r2 = "Seq (Lit (js ''://'')) ?r3"
  let ?r1 = "Seq (Opt (Lit (js ''s''))) ?r2"
  from assms have "lang True (Seq (Lit (js ''http'')) ?r1) u" by (simp del: lang.simps)
  then obtain v1 w1 where 1: "u = v1 @ w1" "lang True ?r1 w1" by (rule lang_SeqE)
  from 1(2) obtain v2 w2 where 2: "w1 = v2 @ w2" "lang True ?r2 w2" by (rule lang_SeqE)
  from 2(2) obtain v3 w3 where 3: "w2 = v3 @ w3" "lang True ?r3 w3" by (rule lang_SeqE)
  from 3(2) obtain v4 w4 where 4: "w3 = v4 @ w4" "lang True ?r4 w4" by (rule lang_SeqE)
  from 4(2) obtain d e where 5: "w4 = d @ e" and "lang True (Lit (js ''.'')) d"
    and "lang True ?ext e" by (rule lang_SeqE)
  then have d: "canon d = canon (js ''.'')"
    and e: "canon e = canon (js ''mp3'') \<or> canon e = canon (js ''wav'')
      \<or> canon e = canon (js ''ogg'') \<or> canon e = canon (js ''m4a'')
      \<or> canon e = canon (js ''flac'')"
    by (auto simp: canon_def)
  from 1 2 3 4 5 have u: "u = (v1 @ v2 @ v3 @ v4) @ d @ e" by simp
  from d have "canon d = [46]" by (simp add: eval_canon)
  moreover from e have "canon e \<noteq> [] \<and> hd (canon e) \<in> {77, 87, 79, 70}"
    by (auto simp: eval_canon)
  ultimately have "adjacent 46 77 (canon d @ canon e) \<or> adjacent 46 87 (canon d @ canon e)
      \<or> adjacent 46 79 (canon d @ canon e) \<or> adjacent 46 70 (canon d @ canon e)"
    by (auto simp: adjacent_Cons)
  with u show ?thesis by (auto simp: canon_append adjacent_append)
qed

lemma lang_needs: "lang True (pattern_source p) u \<Longrightarrow> needs p (canon u)"
  by (cases p) (simp_all only: lang_needs_soundcloud lang_needs_youtube lang_needs_spotify
      lang_needs_bandcamp lang_needs_directAudio)

lemma occurrences_needs:
  assumes "u \<in> set (occurrences (pattern p) s)"
  shows "needs p (canon s)"
proof -
  from occurrences_lang [OF assms] have "lang True (pattern_source p) u"
    by (simp add: pattern_def)
  then have "needs p (canon u)" by (rule lang_needs)
  moreover from occurrences_substring [OF assms] obtain pre rest where "s = pre @ u @ rest"
    by blast
  ultimately show ?thesis by (simp add: canon_append needs_mono)
qed

lemma no_needs_no_occurrences: "\<not> needs p (canon s) \<Longrightarrow> occurrences (pattern p) s = []"
  using occurrences_needs [of _ p s] by (cases "occurrences (pattern p) s") auto

lemma embed_shape_no_needs:
  assumes "46 \<notin> set a" "63 \<notin> set a" "46 \<notin> set b" "63 \<notin> set b"
    and "shape = js ''youtube.com/embed/'' \<or> shape = js ''www.youtube.com/embed/''"
  shows "\<not> needs p (canon (a @ shape @ b))"
proof -
  let ?A = "canon a" and ?B = "canon b" and ?C = "canon shape"
  have A: "46 \<notin> set ?A" "63 \<notin> set ?A" and B: "46 \<notin> set ?B" "63 \<notin> set ?B"
    using assms(1-4) by (simp_all add: canon_no_dot canon_no_question)
  from assms(5) have C: "?C = canon (js ''youtube.com/embed/'')
      \<or> ?C = canon (js ''www.youtube.com/embed/'')"
    by auto
  have ne: "?C \<noteq> []" and hd: "hd ?C \<noteq> 46" and last: "last ?C \<noteq> 46" and q: "63 \<notin> set ?C"
    using C by (auto simp: eval_canon)
  have before: "\<not> adjacent 68 46 ?C" "\<not> adjacent 85 46 ?C" "\<not> adjacent 89 46 ?C"
    using C by (auto simp: eval_canon)
  have after: "\<not> adjacent 46 66 ?C" "\<not> adjacent 46 77 ?C" "\<not> adjacent 46 87 ?C"
    "\<not> adjacent 46 79 ?C" "\<not> adjacent 46 70 ?C"
    using C by (auto simp: eval_canon)
  note b = no_adjacent_before_dot [OF A(1) B(1) _ ne hd]
  note a = no_adjacent_after_dot [OF A(1) B(1) _ ne last]
  show ?thesis
    using A(2) B(2) q b [OF before(1)] b [OF before(2)] b [OF before(3)]
      a [OF after(1)] a [OF after(2)] a [OF after(3)] a [OF after(4)] a [OF after(5)]
    by (cases p) (simp_all add: canon_append)
qed

lemma occurrences_nil_no_match:
  assumes "occurrences R s = []"
  shows "match_here (ignoreCase R) (source R) (drop i s) = None"
proof (cases "match_here (ignoreCase R) (source R) (drop i s)")
  case None
  then show ?thesis .
next
  case (Some st)
  obtain caps rest where "st = (caps, rest)" by (cases st)
  with Some occurrences_match [of R "drop i s" caps rest]
  have "occurrences R (drop i s) \<noteq> []" by (simp add: Let_def)
  with occurrences_nil_drop [OF assms, of i] show ?thesis by simp
qed

lemma search_none:
  assumes "\<And>i. match_here (ignoreCase R) (source R) (drop i S) = None"
  shows "search R S j = None"
proof (induction "Suc (length S) - j" arbitrary: j rule: less_induct)
  case less
  show ?case
  proof (cases "length S < j")
    case True
    then show ?thesis by (simp add: search.simps [of R S j])
  next
    case False
    then have "search R S (Suc j) = None" by (intro less.hyps) simp
    with False assms [of j] show ?thesis by (simp add: search.simps [of R S j])
  qed
qed

lemma exec_none:
  assumes "global R" "occurrences R S = []"
  shows "RegExpBuiltinExec R li S = (None, 0)"
proof -
  from occurrences_nil_no_match [OF assms(2)] have "search R S li = None"
    by (rule search_none)
  with assms(1) show ?thesis by (simp add: RegExpBuiltinExec_def)
qed

lemma test_platforms_none:
  assumes "\<And>p. occurrences (pattern p) s = []"
  shows "fst (test_platforms ps P s) = False"
proof (induction ps arbitrary: P)
  case Nil
  show ?case by simp
next
  case (Cons p ps)
  have "RegExpBuiltinExec (pattern p) (lastIndex P p) s = (None, 0)"
    by (rule exec_none) (simp_all add: pattern_def assms [unfolded pattern_def])
  with Cons.IH show ?case by simp
qed

section \<open>\<open>parseText\<close> on a new instance\<close>

text \<open>
  On a new instance \<open>parseText\<close> returns (and does not throw) exactly one AudioMatch
  for each occurrence of each platform's pattern in the text: the platforms and urls of
  the result are, platform by platform in table order, the occurrences of that
  platform's pattern; the results of one platform are all the occurrences of its
  pattern, whatever the other platforms match, so that text matched by two platforms is
  reported for both; each url is a piece of the text that its platform's pattern matches
  exactly there; and each markup is what the platform's builder returns for the url.
  In \<open>https://youtu.be/abc.mp3\<close> the YouTube link and the audio file that contains it
  are both reported.
\<close>

lemma parseText_new_instance_occurrences:
  "(\<exists>ms. parseText new_AudioParser text = Inr ms
      \<and> map (\<lambda>a. (platform a, url a)) ms =
          concat (map (\<lambda>p. map (Pair p) (occurrences (pattern p) text)) platform_order)
      \<and> (\<forall>p. map url (filter (\<lambda>a. platform a = p) ms) = occurrences (pattern p) text)
      \<and> list_all (\<lambda>a. \<exists>pre rest caps. text = pre @ url a @ rest
            \<and> match_here True (pattern_source (platform a)) (url a @ rest) = Some (caps, rest)) ms
      \<and> list_all (\<lambda>a. platform_embed (platform a) (url a) = Inr (embedHtml a)) ms)
   \<and> map_sum id (map (\<lambda>a. (platform a, url a)))
         (parseText new_AudioParser (js ''https://youtu.be/abc.mp3''))
       = Inr [(youtube, js ''https://youtu.be/abc''),
              (directAudio, js ''https://youtu.be/abc.mp3'')]"
proof
  from parseText_total [of new_AudioParser "text"] obtain ms where
    ms: "parseText new_AudioParser text = Inr ms"
    "map (\<lambda>a. (platform a, url a)) ms =
       concat (map (\<lambda>p. map (Pair p) (occurrences (pattern p) text)) platform_order)"
    "list_all (\<lambda>a. platform_embed (platform a) (url a) = Inr (embedHtml a)) ms"
    by (auto simp: urls_from_new)
  have per: "map url (filter (\<lambda>a. platform a = p) ms) = occurrences (pattern p) text" for p
    using ms(2) by (rule filter_platform)
  have "\<exists>pre rest caps. text = pre @ url a @ rest
      \<and> match_here True (pattern_source (platform a)) (url a @ rest) = Some (caps, rest)"
    if "a \<in> set ms" for a
  proof -
    from that have "url a \<in> set (map url (filter (\<lambda>b. platform b = platform a) ms))" by simp
    then have "url a \<in> set (occurrences (pattern (platform a)) text)" by (simp only: per)
    from occurrences_substring [OF this] show ?thesis by (simp add: pattern_def)
  qed
  then have "list_all (\<lambda>a. \<exists>pre rest caps. text = pre @ url a @ rest
      \<and> match_here True (pattern_source (platform a)) (url a @ rest) = Some (caps, rest)) ms"
    by (simp add: list_all_iff)
  with ms per show "\<exists>ms. parseText new_AudioParser text = Inr ms
      \<and> map (\<lambda>a. (platform a, url a)) ms =
          concat (map (\<lambda>p. map (Pair p) (occurrences (pattern p) text)) platform_order)
      \<and> (\<forall>p. map url (filter (\<lambda>a. platform a = p) ms) = occurrences (pattern p) text)
      \<and> list_all (\<lambda>a. \<exists>pre rest caps. text = pre @ url a @ rest
            \<and> match_here True (pattern_source (platform a)) (url a @ rest) = Some (caps, rest)) ms
      \<and> list_all (\<lambda>a. platform_embed (platform a) (url a) = Inr (embedHtml a)) ms"
    by blast
next
  let ?t = "js ''https://youtu.be/abc.mp3''"
  have sc: "occurrences (pattern soundcloud) ?t = []" by (simp add: eval_regex)
  have yt: "occurrences (pattern youtube) ?t = [js ''https://youtu.be/abc'']"
    by (simp add: eval_regex)
  have sp: "occurrences (pattern spotify) ?t = []" by (simp add: eval_regex)
  have bc: "occurrences (pattern bandcamp) ?t = []" by (simp add: eval_regex)
  have da: "occurrences (pattern directAudio) ?t = [?t]" by (simp add: eval_regex)
  from parseText_total [of new_AudioParser ?t] obtain ms where
    "parseText new_AudioParser ?t = Inr ms"
    "map (\<lambda>a. (platform a, url a)) ms =
       concat (map (\<lambda>p. map (Pair p) (occurrences (pattern p) ?t)) platform_order)"
    by (auto simp: urls_from_new)
  then show "map_sum id (map (\<lambda>a. (platform a, url a))) (parseText new_AudioParser ?t)
       = Inr [(youtube, js ''https://youtu.be/abc''), (directAudio, ?t)]"
    by (simp add: platform_order_def sc yt sp bc da)
qed

section \<open>The claims\<close>

text \<open>
  C1 (fails on the code): \<open>parseText\<close> starts the scan of each pattern at the \<open>lastIndex\<close>
  that the pattern object holds, and \<open>hasAudioUrls\<close> moves it. The SoundCloud pattern has
  two occurrences in \<open>soundcloud.com/a/b soundcloud.com/c/d\<close>; on the instance that one
  call of \<open>hasAudioUrls\<close> with this text leaves, \<open>parseText\<close> returns one AudioMatch
  only, for the second occurrence.
\<close>

theorem parseText_misses_occurrence_after_hasAudioUrls:
  "occurrences (pattern soundcloud) (js ''soundcloud.com/a/b soundcloud.com/c/d'')
     = [js ''soundcloud.com/a/b'', js ''soundcloud.com/c/d'']
   \<and> map_sum id (map (\<lambda>a. (platform a, url a)))
       (parseText (snd (hasAudioUrls new_AudioParser (js ''soundcloud.com/a/b soundcloud.com/c/d'')))
          (js ''soundcloud.com/a/b soundcloud.com/c/d''))
     = Inr [(soundcloud, js ''soundcloud.com/c/d'')]"
proof -
  let ?t = "js ''soundcloud.com/a/b soundcloud.com/c/d''"
  let ?P = "\<lparr>lastIndex = (\<lambda>p. 0)(soundcloud := length (js ''soundcloud.com/a/b''))\<rparr>"
  have h: "hasAudioUrls new_AudioParser ?t = (True, ?P)"
    by (simp add: hasAudioUrls_def platform_order_def new_AudioParser_def eval_exec)
  have sc: "occurrences (pattern soundcloud) ?t
      = [js ''soundcloud.com/a/b'', js ''soundcloud.com/c/d'']"
    by (simp add: eval_regex)
  have sc': "occurrences (pattern soundcloud) (drop (length (js ''soundcloud.com/a/b'')) ?t)
      = [js ''soundcloud.com/c/d'']"
    by (simp add: eval_regex)
  have yt: "occurrences (pattern youtube) ?t = []" by (simp add: eval_regex)
  have sp: "occurrences (pattern spotify) ?t = []" by (simp add: eval_regex)
  have bc: "occurrences (pattern bandcamp) ?t = []" by (simp add: eval_regex)
  have da: "occurrences (pattern directAudio) ?t = []" by (simp add: eval_regex)
  have len: "length (js ''soundcloud.com/a/b'') \<le> length ?t" by (simp add: js_def)
  from parseText_total [of ?P ?t] obtain ms where
    "parseText ?P ?t = Inr ms"
    "map (\<lambda>a. (platform a, url a)) ms =
       concat (map (\<lambda>p. map (Pair p) (urls_from ?P ?t p)) platform_order)"
    by blast
  with len have "map_sum id (map (\<lambda>a. (platform a, url a))) (parseText ?P ?t)
      = Inr [(soundcloud, js ''soundcloud.com/c/d'')]"
    by (simp add: urls_from_def platform_order_def sc' yt sp bc da)
  with sc h show ?thesis by simp
qed

text \<open>
  C2: whatever the instance holds, \<open>parseText\<close> returns its matches in the order of the
  platform table (soundcloud, youtube, spotify, bandcamp, directAudio): the positions of
  the platforms of the result never decrease, wherever the matches stand in the text.
  \<open>getFirstAudio\<close> returns the first element of that sequence, or nothing when it is
  empty; for \<open>no links here\<close> it returns nothing. In \<open>youtu.be/xy then soundcloud.com/a/b\<close>
  the SoundCloud link comes second in the text and first in the result.
\<close>

theorem parseText_platform_table_order:
  "(\<exists>ms. parseText P text = Inr ms
      \<and> sorted (map (\<lambda>a. platform_rank (platform a)) ms)
      \<and> getFirstAudio P text = Inr (case ms of [] \<Rightarrow> None | a # _ \<Rightarrow> Some a))
   \<and> map platform_rank platform_order = [0, 1, 2, 3, 4]
   \<and> getFirstAudio P (js ''no links here'') = Inr None
   \<and> map_sum id (map (\<lambda>a. (platform a, url a)))
         (parseText new_AudioParser (js ''youtu.be/xy then soundcloud.com/a/b''))
       = Inr [(soundcloud, js ''soundcloud.com/a/b''), (youtube, js ''youtu.be/xy'')]"
proof (intro conjI)
  from parseText_total [of P "text"] obtain ms where
    ms: "parseText P text = Inr ms"
    "map (\<lambda>a. (platform a, url a)) ms =
       concat (map (\<lambda>p. map (Pair p) (urls_from P text p)) platform_order)"
    by blast
  from ms(2) have "sorted (map (\<lambda>a. platform_rank (platform a)) ms)"
    by (rule sorted_platforms)
  with ms(1) show "\<exists>ms. parseText P text = Inr ms
      \<and> sorted (map (\<lambda>a. platform_rank (platform a)) ms)
      \<and> getFirstAudio P text = Inr (case ms of [] \<Rightarrow> None | a # _ \<Rightarrow> Some a)"
    by (simp add: getFirstAudio_def)
next
  show "map platform_rank platform_order = [0, 1, 2, 3, 4]"
    by (simp add: platform_order_def)
next
  let ?t = "js ''no links here''"
  from parseText_total [of P ?t] obtain ms where
    "parseText P ?t = Inr ms"
    "map (\<lambda>a. (platform a, url a)) ms =
       concat (map (\<lambda>p. map (Pair p) (urls_from P ?t p)) platform_order)"
    by blast
  then show "getFirstAudio P ?t = Inr None"
    by (simp add: getFirstAudio_def urls_from_nil no_links_here platform_order_def)
next
  let ?t = "js ''youtu.be/xy then soundcloud.com/a/b''"
  have sc: "occurrences (pattern soundcloud) ?t = [js ''soundcloud.com/a/b'']"
    by (simp add: eval_regex)
  have yt: "occurrences (pattern youtube) ?t = [js ''youtu.be/xy'']" by (simp add: eval_regex)
  have sp: "occurrences (pattern spotify) ?t = []" by (simp add: eval_regex)
  have bc: "occurrences (pattern bandcamp) ?t = []" by (simp add: eval_regex)
  have da: "occurrences (pattern directAudio) ?t = []" by (simp add: eval_regex)
  from parseText_total [of new_AudioParser ?t] obtain ms where
    "parseText new_AudioParser ?t = Inr ms"
    "map (\<lambda>a. (platform a, url a)) ms =
       concat (map (\<lambda>p. map (Pair p) (occurrences (pattern p) ?t)) platform_order)"
    by (auto simp: urls_from_new)
  then show "map_sum id (map (\<lambda>a. (platform a, url a))) (parseText new_AudioParser ?t)
       = Inr [(soundcloud, js ''soundcloud.com/a/b''), (youtube, js ''youtu.be/xy'')]"
    by (simp add: platform_order_def sc yt sp bc da)
qed

theorem parseText_platform_table_order_witness:
  "\<exists>ms. parseText new_AudioParser (js ''youtu.be/xy then soundcloud.com/a/b'') = Inr ms
     \<and> sorted (map (\<lambda>a. platform_rank (platform a)) ms)
     \<and> map platform ms = [soundcloud, youtube]
     \<and> getFirstAudio new_AudioParser (js ''youtu.be/xy then soundcloud.com/a/b'')
         = Inr (Some (hd ms))"
proof -
  let ?t = "js ''youtu.be/xy then soundcloud.com/a/b''"
  from parseText_platform_table_order [of new_AudioParser ?t] obtain ms where
    ms: "parseText new_AudioParser ?t = Inr ms"
    "sorted (map (\<lambda>a. platform_rank (platform a)) ms)"
    "getFirstAudio new_AudioParser ?t = Inr (case ms of [] \<Rightarrow> None | a # _ \<Rightarrow> Some a)"
    and ex: "map_sum id (map (\<lambda>a. (platform a, url a))) (parseText new_AudioParser ?t)
       = Inr [(soundcloud, js ''soundcloud.com/a/b''), (youtube, js ''youtu.be/xy'')]"
    by blast
  from ex ms(1) have "map (\<lambda>a. (platform a, url a)) ms
      = [(soundcloud, js ''soundcloud.com/a/b''), (youtube, js ''youtu.be/xy'')]"
    by simp
  then have "map fst (map (\<lambda>a. (platform a, url a)) ms) = [soundcloud, youtube]"
    by (simp only: list.map fst_conv)
  then have p: "map platform ms = [soundcloud, youtube]" by (simp add: comp_def)
  then obtain a b where "ms = [a, b]" by auto
  with ms p show ?thesis by simp
qed

text \<open>
  C3 (fails on the code): \<open>hasAudioUrls\<close> leaves the \<open>lastIndex\<close> of a pattern that matched
  behind the match, and the next call starts there. On a new instance two calls
  \<open>hasAudioUrls("soundcloud.com/a/b")\<close> answer true and then false; and for the text
  \<open>soundcloud.com/a/b soundcloud.com/c/d\<close>, \<open>parseText\<close> returns two matches before a call
  of \<open>hasAudioUrls\<close> and only the second of them after it.
\<close>

theorem hasAudioUrls_retains_lastIndex:
  "run_calls new_AudioParser
     [HasAudioUrls (js ''soundcloud.com/a/b''), HasAudioUrls (js ''soundcloud.com/a/b'')]
     = [Answer True, Answer False]
   \<and> (\<exists>a b. url a = js ''soundcloud.com/a/b'' \<and> url b = js ''soundcloud.com/c/d''
        \<and> run_calls new_AudioParser
             [ParseText (js ''soundcloud.com/a/b soundcloud.com/c/d''),
              HasAudioUrls (js ''soundcloud.com/a/b soundcloud.com/c/d''),
              ParseText (js ''soundcloud.com/a/b soundcloud.com/c/d'')]
           = [Detected (Inr [a, b]), Answer True, Detected (Inr [b])])"
proof
  let ?t = "js ''soundcloud.com/a/b''"
  let ?P = "\<lparr>lastIndex = (\<lambda>p. 0)(soundcloud := length ?t)\<rparr>"
  have 1: "hasAudioUrls new_AudioParser ?t = (True, ?P)"
    by (simp add: hasAudioUrls_def platform_order_def new_AudioParser_def eval_exec)
  have 2: "fst (hasAudioUrls ?P ?t) = False"
    by (simp add: hasAudioUrls_def platform_order_def eval_exec)
  from 2 show "run_calls new_AudioParser [HasAudioUrls ?t, HasAudioUrls ?t]
      = [Answer True, Answer False]"
    by (simp add: 1 case_prod_beta)
next
  let ?t = "js ''soundcloud.com/a/b soundcloud.com/c/d''"
  let ?P = "\<lparr>lastIndex = (\<lambda>p. 0)(soundcloud := length (js ''soundcloud.com/a/b''))\<rparr>"
  have h: "hasAudioUrls new_AudioParser ?t = (True, ?P)"
    by (simp add: hasAudioUrls_def platform_order_def new_AudioParser_def eval_exec)
  have sc: "occurrences (pattern soundcloud) ?t = [js ''soundcloud.com/a/b'', js ''soundcloud.com/c/d'']"
    by (simp add: eval_regex)
  have sc': "occurrences (pattern soundcloud) (drop (length (js ''soundcloud.com/a/b'')) ?t)
      = [js ''soundcloud.com/c/d'']"
    by (simp add: eval_regex)
  have yt: "occurrences (pattern youtube) ?t = []" by (simp add: eval_regex)
  have sp: "occurrences (pattern spotify) ?t = []" by (simp add: eval_regex)
  have bc: "occurrences (pattern bandcamp) ?t = []" by (simp add: eval_regex)
  have da: "occurrences (pattern directAudio) ?t = []" by (simp add: eval_regex)
  have "well_formed_utf16 (js ''soundcloud.com/a/b'')"
    "well_formed_utf16 (js ''soundcloud.com/c/d'')"
    by (rule ascii_well_formed, simp add: js_def)+
  then have "\<exists>h. createSoundCloudEmbed (js ''soundcloud.com/a/b'') = Inr h"
    "\<exists>h. createSoundCloudEmbed (js ''soundcloud.com/c/d'') = Inr h"
    by (simp_all only: createSoundCloudEmbed_total)
  then obtain h1 h2 where em: "createSoundCloudEmbed (js ''soundcloud.com/a/b'') = Inr h1"
    "createSoundCloudEmbed (js ''soundcloud.com/c/d'') = Inr h2" by blast
  let ?a = "\<lparr>platform = soundcloud, url = js ''soundcloud.com/a/b'', embedHtml = h1\<rparr>"
  let ?b = "\<lparr>platform = soundcloud, url = js ''soundcloud.com/c/d'', embedHtml = h2\<rparr>"
  have p1: "parseText new_AudioParser ?t = Inr [?a, ?b]"
    by (simp add: parseText_new scan_def platform_order_def sc yt sp bc da em)
  have len: "length (js ''soundcloud.com/a/b'') \<le> length ?t" by (simp add: js_def)
  have p2: "parseText ?P ?t = Inr [?b]"
    using len by (simp add: parseText_urls_from urls_from_def platform_order_def sc' yt sp bc da em)
  have "run_calls new_AudioParser [ParseText ?t, HasAudioUrls ?t, ParseText ?t]
      = [Detected (Inr [?a, ?b]), Answer True, Detected (Inr [?b])]"
    by (simp add: p1 h p2)
  moreover have "url ?a = js ''soundcloud.com/a/b''" "url ?b = js ''soundcloud.com/c/d''" by simp_all
  ultimately show "\<exists>a b. url a = js ''soundcloud.com/a/b'' \<and> url b = js ''soundcloud.com/c/d''
        \<and> run_calls new_AudioParser [ParseText ?t, HasAudioUrls ?t, ParseText ?t]
           = [Detected (Inr [a, b]), Answer True, Detected (Inr [b])]"
    by blast
qed

text \<open>
  C4 (fails on the code): \<open>formatPostText\<close> removes the first occurrence of each matched
  url, one after the other, and a removal can join what stood around it into a url again.
  For \<open>youtuyoutu.be/x.be/a youtu.be/a\<close> the matches are \<open>youtu.be/x\<close> and \<open>youtu.be/a\<close>;
  the text handed to \<open>escapeHtml\<close> is \<open> youtu.be/a\<close>, which still holds the second url.
\<close>

theorem formatPostText_leaves_matched_url:
  "map_sum id (map url) (parseText new_AudioParser (js ''youtuyoutu.be/x.be/a youtu.be/a''))
     = Inr [js ''youtu.be/x'', js ''youtu.be/a'']
   \<and> formatPostText_text new_AudioParser (js ''youtuyoutu.be/x.be/a youtu.be/a'')
     = Inr (js '' youtu.be/a'')"
proof -
  let ?t = "js ''youtuyoutu.be/x.be/a youtu.be/a''"
  have sc: "occurrences (pattern soundcloud) ?t = []" by (simp add: eval_regex)
  have yt: "occurrences (pattern youtube) ?t = [js ''youtu.be/x'', js ''youtu.be/a'']"
    by (simp add: eval_regex)
  have sp: "occurrences (pattern spotify) ?t = []" by (simp add: eval_regex)
  have bc: "occurrences (pattern bandcamp) ?t = []" by (simp add: eval_regex)
  have da: "occurrences (pattern directAudio) ?t = []" by (simp add: eval_regex)
  have "\<exists>h1 h2. parseText new_AudioParser ?t =
      Inr [\<lparr>platform = youtube, url = js ''youtu.be/x'', embedHtml = h1\<rparr>,
           \<lparr>platform = youtube, url = js ''youtu.be/a'', embedHtml = h2\<rparr>]"
    by (simp add: parseText_new scan_def platform_order_def sc yt sp bc da)
  then obtain h1 h2 where p: "parseText new_AudioParser ?t =
      Inr [\<lparr>platform = youtube, url = js ''youtu.be/x'', embedHtml = h1\<rparr>,
           \<lparr>platform = youtube, url = js ''youtu.be/a'', embedHtml = h2\<rparr>]"
    by blast
  then have "formatPostText_text new_AudioParser ?t = Inr (js '' youtu.be/a'')"
    by (simp add: formatPostText_text_def replace_first_def newlines_to_br_def js_def)
  with p show ?thesis by simp
qed



text \<open>
  C6: the Spotify builder takes the item type and the item ID from the two capture
  groups of its one pattern: either the pattern does not match and the result is empty,
  or the type is one of track, album and playlist, the ID is not empty, and the markup
  is the template for this type and ID with height 152 for a track and 380 for an album
  or a playlist; 152 is less than 380, and the height chosen is the height attribute of
  the markup. For \<open>https://open.spotify.com/track/abc123\<close> the builder takes the track
  height.
\<close>

theorem createSpotifyEmbed_height_by_type:
  "((string_match link spotify_item_pattern = None \<and> createSpotifyEmbed link = [])
     \<or> (\<exists>m item_type item_id.
           string_match link spotify_item_pattern = Some m
           \<and> groups m = [item_type, item_id]
           \<and> item_type \<in> {js ''track'', js ''album'', js ''playlist''}
           \<and> item_id \<noteq> []
           \<and> createSpotifyEmbed link =
               spotify_markup item_type item_id
                 (if item_type = js ''track'' then js ''152'' else js ''380'')))
   \<and> decimal (js ''152'') < decimal (js ''380'')
   \<and> (\<exists>pre post. spotify_markup item_type item_id height
         = pre @ js ''height='' @ [34] @ height @ [34] @ post)
   \<and> createSpotifyEmbed (js ''https://open.spotify.com/track/abc123'')
       = spotify_markup (js ''track'') (js ''abc123'') (js ''152'')"
proof (intro conjI)
  show "(string_match link spotify_item_pattern = None \<and> createSpotifyEmbed link = [])
     \<or> (\<exists>m item_type item_id.
           string_match link spotify_item_pattern = Some m
           \<and> groups m = [item_type, item_id]
           \<and> item_type \<in> {js ''track'', js ''album'', js ''playlist''}
           \<and> item_id \<noteq> []
           \<and> createSpotifyEmbed link =
               spotify_markup item_type item_id
                 (if item_type = js ''track'' then js ''152'' else js ''380''))"
  proof (cases "string_match link spotify_item_pattern")
    case None
    then show ?thesis by (simp add: createSpotifyEmbed_def)
  next
    case (Some m)
    from spotify_captures [OF Some] obtain t i where
      g: "groups m = [t, i]" "t \<in> {js ''track'', js ''album'', js ''playlist''}" "i \<noteq> []"
      by blast
    from Some g(1) have "createSpotifyEmbed link =
        spotify_markup t i (if t = js ''track'' then js ''152'' else js ''380'')"
      by (simp add: createSpotifyEmbed_def capture_def template_string_def spotify_height_def)
    with Some g show ?thesis by blast
  qed
next
  show "decimal (js ''152'') < decimal (js ''380'')" by (simp add: decimal_def js_def)
next
  show "\<exists>pre post. spotify_markup item_type item_id height
         = pre @ js ''height='' @ [34] @ height @ [34] @ post"
    by (rule exI [of _ "take 96 (spotify_markup [] [] []) @ item_type @ [47] @ item_id
            @ take 54 (drop 97 (spotify_markup [] [] []))"],
        rule exI [of _ "drop 160 (spotify_markup [] [] [])"])
      (simp add: spotify_markup_def js_def)
next
  show "createSpotifyEmbed (js ''https://open.spotify.com/track/abc123'')
       = spotify_markup (js ''track'') (js ''abc123'') (js ''152'')"
    by (simp add: createSpotifyEmbed_def spotify_item_pattern_def string_match_def capture_def
        template_string_def spotify_height_def eval_exec)
qed

theorem createSpotifyEmbed_height_by_type_witness:
  "createSpotifyEmbed (js ''open.spotify.com/album/xyz'')
     = spotify_markup (js ''album'') (js ''xyz'') (js ''380'')"
proof -
  let ?l = "js ''open.spotify.com/album/xyz''"
  have m: "string_match ?l spotify_item_pattern
      = Some \<lparr>index = 5, matched = js ''spotify.com/album/xyz'',
              groups = [js ''album'', js ''xyz'']\<rparr>"
    by (simp add: spotify_item_pattern_def string_match_def eval_exec)
  from createSpotifyEmbed_height_by_type [of ?l] m
  have "createSpotifyEmbed ?l = spotify_markup (js ''album'') (js ''xyz'')
      (if js ''album'' = js ''track'' then js ''152'' else js ''380'')"
    by auto
  then show ?thesis by (simp add: js_def)
qed

text \<open>
  C7 (fails on the code): the pattern of the table is matched without regard to case, the
  pattern of the Spotify builder is not. \<open>https://open.Spotify.com/track/abc123\<close> is a
  match of the table's Spotify pattern, and the builder returns the empty string for it.
\<close>

theorem spotify_builder_empty_on_matcher_output:
  "map_sum id (map (\<lambda>a. (platform a, url a, embedHtml a)))
     (parseText new_AudioParser (js ''https://open.Spotify.com/track/abc123''))
   = Inr [(spotify, js ''https://open.Spotify.com/track/abc123'', [])]"
proof -
  let ?t = "js ''https://open.Spotify.com/track/abc123''"
  have sc: "occurrences (pattern soundcloud) ?t = []" by (simp add: eval_regex)
  have yt: "occurrences (pattern youtube) ?t = []" by (simp add: eval_regex)
  have sp: "occurrences (pattern spotify) ?t = [?t]" by (simp add: eval_regex)
  have bc: "occurrences (pattern bandcamp) ?t = []" by (simp add: eval_regex)
  have da: "occurrences (pattern directAudio) ?t = []" by (simp add: eval_regex)
  have em: "createSpotifyEmbed ?t = []"
    by (simp add: createSpotifyEmbed_def spotify_item_pattern_def string_match_def eval_exec)
  show ?thesis
    by (simp add: parseText_new scan_def platform_order_def sc yt sp bc da em)
qed

text \<open>
  C8 (as stated, fails): the SoundCloud builder passes its argument to
  \<open>encodeURIComponent\<close>, which throws URIError for a string that holds an unpaired
  surrogate, such as the one code unit D800.
\<close>

theorem createSoundCloudEmbed_throws_on_lone_surrogate:
  "platform_embed soundcloud [55296] = Inl URIError"
  by (simp add: createSoundCloudEmbed_def uri_unreserved_def lead_surrogate_def
      trail_surrogate_def)

text \<open>
  C8 (amended): the YouTube, Spotify, Bandcamp and direct-audio builders return a
  fragment for every string; the SoundCloud builder returns a fragment exactly for the
  strings of well-formed UTF-16, so for every url the matcher hands to it: \<open>parseText\<close>
  never throws, for any text and any state of the instance; and the YouTube builder
  returns the empty string for every string that none of its three ID patterns
  matches.
\<close>

theorem builders_return:
  "(p \<noteq> soundcloud \<longrightarrow> (\<exists>html. platform_embed p link = Inr html))
   \<and> ((\<exists>html. platform_embed soundcloud link = Inr html) \<longleftrightarrow> well_formed_utf16 link)
   \<and> (\<exists>ms. parseText P text = Inr ms)
   \<and> (string_match link youtube_watch_pattern = None
        \<and> string_match link youtu_be_pattern = None
        \<and> string_match link youtube_embed_pattern = None
      \<longrightarrow> createYouTubeEmbed link = [])"
proof (intro conjI impI)
  assume "p \<noteq> soundcloud"
  then show "\<exists>html. platform_embed p link = Inr html" by (rule embed_other_total)
next
  show "(\<exists>html. platform_embed soundcloud link = Inr html) \<longleftrightarrow> well_formed_utf16 link"
    by (simp add: createSoundCloudEmbed_total)
next
  from parseText_total [of P "text"] show "\<exists>ms. parseText P text = Inr ms" by blast
next
  assume "string_match link youtube_watch_pattern = None
        \<and> string_match link youtu_be_pattern = None
        \<and> string_match link youtube_embed_pattern = None"
  then show "createYouTubeEmbed link = []"
    by (simp add: createYouTubeEmbed_def youtube_id_patterns_def)
qed

theorem builders_return_witness:
  "(\<exists>html. platform_embed spotify (js ''https://www.youtube.com/shorts/abc'') = Inr html)
   \<and> (\<exists>html. platform_embed soundcloud (js ''https://www.youtube.com/shorts/abc'') = Inr html)
   \<and> createYouTubeEmbed (js ''https://www.youtube.com/shorts/abc'') = []"
proof -
  let ?l = "js ''https://www.youtube.com/shorts/abc''"
  note inst = builders_return [of spotify ?l new_AudioParser "[]"]
  have 1: "spotify \<noteq> soundcloud" by simp
  have 2: "well_formed_utf16 ?l" by (rule ascii_well_formed) (simp add: js_def)
  have 3: "string_match ?l youtube_watch_pattern = None
        \<and> string_match ?l youtu_be_pattern = None
        \<and> string_match ?l youtube_embed_pattern = None"
    by (simp add: youtube_watch_pattern_def youtu_be_pattern_def youtube_embed_pattern_def
        string_match_def eval_exec)
  from inst 1 2 3 show ?thesis by blast
qed

text \<open>
  C9: two calls of \<open>parseText\<close> in succession on the same text, on an instance in any
  state, return the same sequence of matches (and neither throws): \<open>parseText\<close> writes
  nothing that the next call reads.
\<close>

theorem parseText_twice_identical:
  "\<exists>ms. run_calls P [ParseText text, ParseText text] = [Detected (Inr ms), Detected (Inr ms)]"
proof -
  from parseText_total [of P "text"] obtain ms where "parseText P text = Inr ms" by blast
  then show ?thesis by simp
qed

theorem parseText_twice_identical_witness:
  "\<exists>ms. run_calls new_AudioParser [ParseText (js ''youtu.be/xy''), ParseText (js ''youtu.be/xy'')]
     = [Detected (Inr ms), Detected (Inr ms)]"
  by (rule parseText_twice_identical)

text \<open>
  C10: the pattern of the table for YouTube knows the shapes \<open>watch?v=\<close> and \<open>youtu.be/\<close>
  only, while the builder's third pattern extracts an ID from the shape \<open>embed/\<close>. For
  every text that is \<open>youtube.com/embed/\<close> or \<open>www.youtube.com/embed/\<close> between two texts
  without a dot and without a question mark (a scheme before it, the ID and words after
  it), whatever the instance holds, \<open>parseText\<close> returns the empty sequence,
  \<open>hasAudioUrls\<close> answers false and \<open>getFirstAudio\<close> returns nothing.
\<close>

theorem embed_shape_not_recognized:
  assumes "46 \<notin> set a" "63 \<notin> set a" "46 \<notin> set b" "63 \<notin> set b"
    and "shape = js ''youtube.com/embed/'' \<or> shape = js ''www.youtube.com/embed/''"
  shows "parseText P (a @ shape @ b) = Inr []
    \<and> fst (hasAudioUrls P (a @ shape @ b)) = False
    \<and> getFirstAudio P (a @ shape @ b) = Inr None
    \<and> source (pattern youtube) =
        cat [Opt (cat [Lit (js ''http''), Opt (Lit (js ''s'')), Lit (js ''://'')]),
             Opt (Lit (js ''www.'')),
             Alt (Lit (js ''youtube.com/watch?v='')) (Lit (js ''youtu.be/'')),
             Cap (Plus WordDash)]
    \<and> extract_id youtube_embed_pattern (js ''https://www.youtube.com/embed/dQw4w9WgXcQ'')
        = Some (js ''dQw4w9WgXcQ'')"
proof -
  let ?t = "a @ shape @ b"
  have none: "occurrences (pattern p) ?t = []" for p
    using embed_shape_no_needs [OF assms] by (rule no_needs_no_occurrences)
  from parseText_total [of P ?t] obtain ms where
    "parseText P ?t = Inr ms"
    "map (\<lambda>a. (platform a, url a)) ms =
       concat (map (\<lambda>p. map (Pair p) (urls_from P ?t p)) platform_order)"
    by blast
  then have p: "parseText P ?t = Inr []"
    by (simp add: urls_from_nil none platform_order_def)
  then have g: "getFirstAudio P ?t = Inr None" by (simp add: getFirstAudio_def)
  have h: "fst (hasAudioUrls P ?t) = False"
    unfolding hasAudioUrls_def using none by (rule test_platforms_none)
  have e: "extract_id youtube_embed_pattern (js ''https://www.youtube.com/embed/dQw4w9WgXcQ'')
        = Some (js ''dQw4w9WgXcQ'')"
    by (simp add: extract_id_def youtube_embed_pattern_def string_match_def capture_def eval_exec)
  from p g h e show ?thesis by (simp add: pattern_def)
qed

theorem embed_shape_not_recognized_witness:
  "parseText new_AudioParser (js ''see https://www.youtube.com/embed/dQw4w9WgXcQ now'') = Inr []
   \<and> fst (hasAudioUrls new_AudioParser (js ''see https://www.youtube.com/embed/dQw4w9WgXcQ now''))
       = False
   \<and> getFirstAudio new_AudioParser (js ''see https://www.youtube.com/embed/dQw4w9WgXcQ now'')
       = Inr None"
proof -
  let ?a = "js ''see https://''" and ?s = "js ''www.youtube.com/embed/''"
    and ?b = "js ''dQw4w9WgXcQ now''"
  have 1: "46 \<notin> set ?a" "63 \<notin> set ?a" "46 \<notin> set ?b" "63 \<notin> set ?b"
    by (simp_all add: js_def)
  have 2: "?s = js ''youtube.com/embed/'' \<or> ?s = js ''www.youtube.com/embed/''" by simp
  have 3: "?a @ ?s @ ?b = js ''see https://www.youtube.com/embed/dQw4w9WgXcQ now''"
    by (simp add: js_def)
  from embed_shape_not_recognized [OF 1 2, of new_AudioParser] show ?thesis
    unfolding 3 by blast
qed

end
